theory Spec2Isabelle
  imports Main "HOL-Library.Word" "HOL-Library.Char_ord" "HOL-Library.List_Lexorder"
begin

unbundle bit_operations_syntax

section \<open>Text and bytes\<close>

text \<open>
  A Python \<open>str\<close> read from a file is a sequence of Unicode code points; it is modelled
  as a list of natural numbers (\<open>ustr\<close>). A \<open>bytes\<close> value is a list of 8-bit words.
  File names, extensions and language names are modelled as \<open>string\<close>, that is with
  code points below 256, where \<open>str.lower\<close> can be written out in full.
\<close>

type_synonym ustr = "nat list"
type_synonym byte = "8 word"

definition u :: "string \<Rightarrow> ustr" where
  "u s = map of_char s"

datatype error = OSError | UnicodeEncodeError | TypeError | KeyError | AssertionError | SystemExit string

subsection \<open>\<open>str.encode("utf-8")\<close>\<close>

definition encode_cp :: "nat \<Rightarrow> byte list option" where
  "encode_cp c =
     (if c < 0x80 then Some [of_nat c]
      else if c < 0x800 then Some [of_nat (0xC0 + c div 64), of_nat (0x80 + c mod 64)]
      else if c < 0x10000 then
        (if 0xD800 \<le> c \<and> c \<le> 0xDFFF then None
         else Some [of_nat (0xE0 + c div 4096), of_nat (0x80 + c div 64 mod 64),
                    of_nat (0x80 + c mod 64)])
      else if c < 0x110000 then
        Some [of_nat (0xF0 + c div 262144), of_nat (0x80 + c div 4096 mod 64),
              of_nat (0x80 + c div 64 mod 64), of_nat (0x80 + c mod 64)]
      else None)"

fun encode_utf8 :: "ustr \<Rightarrow> byte list option" where
  "encode_utf8 [] = Some []"
| "encode_utf8 (c # cs) =
     (case encode_cp c of
        None \<Rightarrow> None
      | Some bs \<Rightarrow> (case encode_utf8 cs of None \<Rightarrow> None | Some r \<Rightarrow> Some (bs @ r)))"

subsection \<open>Reading a file opened with \<open>encoding="utf-8", errors="ignore"\<close>\<close>

text \<open>
  The decoder follows the table of well-formed UTF-8 byte sequences. At a lead byte it
  accepts the following bytes while they are in the range the table allows; a complete
  sequence gives one code point, an incomplete or ill-formed one is dropped up to the
  first byte that does not fit (the error handler \<open>ignore\<close>), and decoding goes on at
  that byte.
\<close>

definition in_range :: "nat \<Rightarrow> nat \<Rightarrow> byte \<Rightarrow> bool" where
  "in_range lo hi b = (lo \<le> unat b \<and> unat b \<le> hi)"

definition cont :: "byte \<Rightarrow> nat" where
  "cont b = unat b - 0x80"

fun decode_utf8_ignore :: "byte list \<Rightarrow> ustr" where
  "decode_utf8_ignore [] = []"
| "decode_utf8_ignore (b0 # bs) =
     (let n0 = unat b0 in
      if n0 < 0x80 then n0 # decode_utf8_ignore bs
      else if n0 < 0xC2 then decode_utf8_ignore bs
      else if n0 < 0xE0 then
        (case bs of
           b1 # r1 \<Rightarrow>
             if in_range 0x80 0xBF b1
             then ((n0 - 0xC0) * 64 + cont b1) # decode_utf8_ignore r1
             else decode_utf8_ignore bs
         | [] \<Rightarrow> [])
      else if n0 < 0xF0 then
        (case bs of
           b1 # r1 \<Rightarrow>
             if in_range (if n0 = 0xE0 then 0xA0 else 0x80) (if n0 = 0xED then 0x9F else 0xBF) b1
             then
               (case r1 of
                  b2 # r2 \<Rightarrow>
                    if in_range 0x80 0xBF b2
                    then ((n0 - 0xE0) * 4096 + cont b1 * 64 + cont b2) # decode_utf8_ignore r2
                    else decode_utf8_ignore r1
                | [] \<Rightarrow> [])
             else decode_utf8_ignore bs
         | [] \<Rightarrow> [])
      else if n0 < 0xF5 then
        (case bs of
           b1 # r1 \<Rightarrow>
             if in_range (if n0 = 0xF0 then 0x90 else 0x80) (if n0 = 0xF4 then 0x8F else 0xBF) b1
             then
               (case r1 of
                  b2 # r2 \<Rightarrow>
                    if in_range 0x80 0xBF b2
                    then
                      (case r2 of
                         b3 # r3 \<Rightarrow>
                           if in_range 0x80 0xBF b3
                           then ((n0 - 0xF0) * 262144 + cont b1 * 4096 + cont b2 * 64 + cont b3)
                                  # decode_utf8_ignore r3
                           else decode_utf8_ignore r2
                       | [] \<Rightarrow> [])
                    else decode_utf8_ignore r1
                | [] \<Rightarrow> [])
             else decode_utf8_ignore bs
         | [] \<Rightarrow> [])
      else decode_utf8_ignore bs)"

text \<open>
  The file is opened in text mode with the default \<open>newline=None\<close>: \<open>\r\n\<close> and a
  lone \<open>\r\<close> are translated to \<open>\n\<close>, and iterating the file yields the text cut
  after every \<open>\n\<close>, each line with its \<open>\n\<close>, the last one possibly without.
\<close>

fun translate_newlines :: "ustr \<Rightarrow> ustr" where
  "translate_newlines [] = []"
| "translate_newlines [c] = (if c = 13 then [10] else [c])"
| "translate_newlines (c # d # cs) =
     (if c = 13 \<and> d = 10 then 10 # translate_newlines cs
      else if c = 13 then 10 # translate_newlines (d # cs)
      else c # translate_newlines (d # cs))"

fun readlines :: "ustr \<Rightarrow> ustr list" where
  "readlines [] = []"
| "readlines (c # cs) =
     (if c = 10 then [c] # readlines cs
      else (case readlines cs of
              [] \<Rightarrow> [[c]]
            | l # ls \<Rightarrow> (c # l) # ls))"

definition file_text :: "byte list \<Rightarrow> ustr" where
  "file_text raw = translate_newlines (decode_utf8_ignore raw)"

definition file_lines :: "byte list \<Rightarrow> ustr list" where
  "file_lines raw = readlines (file_text raw)"

subsection \<open>\<open>hashlib.sha256\<close>\<close>

text \<open>
  SHA-256 as FIPS 180-4 defines it (the round constants and the initial hash value are
  written in decimal). A \<open>hashlib\<close> object is modelled by the bytes fed to
  it so far: \<open>update\<close> appends, \<open>digest\<close> hashes the whole message.
\<close>

type_synonym w32 = "32 word"

definition K256 :: "w32 list" where
  "K256 =
    [1116352408, 1899447441, 3049323471, 3921009573, 961987163, 1508970993,
     2453635748, 2870763221, 3624381080, 310598401, 607225278, 1426881987,
     1925078388, 2162078206, 2614888103, 3248222580, 3835390401, 4022224774,
     264347078, 604807628, 770255983, 1249150122, 1555081692, 1996064986,
     2554220882, 2821834349, 2952996808, 3210313671, 3336571891, 3584528711,
     113926993, 338241895, 666307205, 773529912, 1294757372, 1396182291,
     1695183700, 1986661051, 2177026350, 2456956037, 2730485921, 2820302411,
     3259730800, 3345764771, 3516065817, 3600352804, 4094571909, 275423344,
     430227734, 506948616, 659060556, 883997877, 958139571, 1322822218,
     1537002063, 1747873779, 1955562222, 2024104815, 2227730452, 2361852424,
     2428436474, 2756734187, 3204031479, 3329325298]"

definition H256 :: "w32 list" where
  "H256 = [1779033703, 3144134277, 1013904242, 2773480762,
           1359893119, 2600822924, 528734635, 1541459225]"

definition Ch :: "w32 \<Rightarrow> w32 \<Rightarrow> w32 \<Rightarrow> w32" where
  "Ch x y z = (x AND y) XOR (NOT x AND z)"

definition Maj :: "w32 \<Rightarrow> w32 \<Rightarrow> w32 \<Rightarrow> w32" where
  "Maj x y z = (x AND y) XOR (x AND z) XOR (y AND z)"

definition bsig0 :: "w32 \<Rightarrow> w32" where
  "bsig0 x = word_rotr 2 x XOR word_rotr 13 x XOR word_rotr 22 x"

definition bsig1 :: "w32 \<Rightarrow> w32" where
  "bsig1 x = word_rotr 6 x XOR word_rotr 11 x XOR word_rotr 25 x"

definition ssig0 :: "w32 \<Rightarrow> w32" where
  "ssig0 x = word_rotr 7 x XOR word_rotr 18 x XOR drop_bit 3 x"

definition ssig1 :: "w32 \<Rightarrow> w32" where
  "ssig1 x = word_rotr 17 x XOR word_rotr 19 x XOR drop_bit 10 x"

definition sha_pad :: "byte list \<Rightarrow> byte list" where
  "sha_pad msg =
     (let bits = (of_nat (8 * length msg) :: 64 word) in
      msg @ [0x80] @ replicate ((119 - length msg mod 64) mod 64) 0
          @ map (\<lambda>i. ucast (drop_bit (8 * i) bits)) [7, 6, 5, 4, 3, 2, 1, 0])"

fun be32 :: "byte list \<Rightarrow> w32 list" where
  "be32 (a # b # c # d # r) =
     (push_bit 24 (ucast a) OR push_bit 16 (ucast b) OR push_bit 8 (ucast c) OR ucast d) # be32 r"
| "be32 r = []"

fun schedule :: "nat \<Rightarrow> w32 list \<Rightarrow> w32 list" where
  "schedule 0 w = w"
| "schedule (Suc k) w =
     (let t = length w in
      schedule k (w @ [ssig1 (w ! (t - 2)) + w ! (t - 7) + ssig0 (w ! (t - 15)) + w ! (t - 16)]))"

fun sha_round :: "w32 list \<Rightarrow> w32 list \<Rightarrow> nat \<Rightarrow> w32 list" where
  "sha_round w [a, b, c, d, e, f, g, h] t =
     (let t1 = h + bsig1 e + Ch e f g + K256 ! t + w ! t;
          t2 = bsig0 a + Maj a b c
      in [t1 + t2, a, b, c, d + t1, e, f, g])"
| "sha_round w s t = s"

definition compress :: "w32 list \<Rightarrow> byte list \<Rightarrow> w32 list" where
  "compress hs block =
     (let w = schedule 48 (be32 block) in
      map2 (+) hs (foldl (sha_round w) hs [0..<64]))"

definition blocks :: "byte list \<Rightarrow> byte list list" where
  "blocks bs = map (\<lambda>i. take 64 (drop (64 * i) bs)) [0..<length bs div 64]"

definition word_bytes :: "w32 \<Rightarrow> byte list" where
  "word_bytes x = [ucast (drop_bit 24 x), ucast (drop_bit 16 x), ucast (drop_bit 8 x), ucast x]"

definition hashlib_sha256 :: "byte list \<Rightarrow> byte list" where
  "hashlib_sha256 msg = concat (map word_bytes (foldl compress H256 (blocks (sha_pad msg))))"

section \<open>String operations of Python\<close>

definition is_space :: "nat \<Rightarrow> bool" where
  "is_space c =
     ((9 \<le> c \<and> c \<le> 13) \<or> (28 \<le> c \<and> c \<le> 32) \<or> c = 133 \<or> c = 160 \<or> c = 5760
      \<or> (8192 \<le> c \<and> c \<le> 8202) \<or> c = 8232 \<or> c = 8233 \<or> c = 8239 \<or> c = 8287 \<or> c = 12288)"

definition strip_by :: "('a \<Rightarrow> bool) \<Rightarrow> 'a list \<Rightarrow> 'a list" where
  "strip_by P s = rev (dropWhile P (rev (dropWhile P s)))"

definition strip :: "ustr \<Rightarrow> ustr" where
  "strip s = strip_by is_space s"

definition strip_name :: "string \<Rightarrow> string" where
  "strip_name s = strip_by (\<lambda>c. is_space (of_char c)) s"

definition startswith :: "'a list \<Rightarrow> 'a list \<Rightarrow> bool" where
  "startswith s p = (take (length p) s = p)"

text \<open>\<open>sub in s\<close>\<close>

fun contains :: "'a list \<Rightarrow> 'a list \<Rightarrow> bool" where
  "contains [] sub = (sub = [])"
| "contains (c # cs) sub = (startswith (c # cs) sub \<or> contains cs sub)"

text \<open>\<open>s.find(sub, start)\<close> for \<open>start \<ge> 0\<close>: the lowest index, or \<open>-1\<close>.\<close>

fun find_at :: "'a list \<Rightarrow> 'a list \<Rightarrow> nat \<Rightarrow> int" where
  "find_at [] sub i = (if sub = [] then int i else - 1)"
| "find_at (c # cs) sub i = (if startswith (c # cs) sub then int i else find_at cs sub (Suc i))"

definition str_find :: "'a list \<Rightarrow> 'a list \<Rightarrow> nat \<Rightarrow> int" where
  "str_find s sub start = (if length s < start then - 1 else find_at (drop start s) sub start)"

text \<open>\<open>s[a:b]\<close> for \<open>a, b \<ge> 0\<close>.\<close>

definition substr :: "'a list \<Rightarrow> nat \<Rightarrow> nat \<Rightarrow> 'a list" where
  "substr s a b = take (b - a) (drop a s)"

text \<open>\<open>s.replace(old, "", 1)\<close> and \<open>s.replace(old, "")\<close>.\<close>

fun replace1 :: "'a list \<Rightarrow> 'a list \<Rightarrow> 'a list" where
  "replace1 [] old = []"
| "replace1 (c # cs) old =
     (if old \<noteq> [] \<and> startswith (c # cs) old then drop (length old) (c # cs)
      else c # replace1 cs old)"

fun replace_skip :: "'a list \<Rightarrow> 'a list \<Rightarrow> nat \<Rightarrow> 'a list" where
  "replace_skip [] old k = []"
| "replace_skip (c # cs) old (Suc k) = replace_skip cs old k"
| "replace_skip (c # cs) old 0 =
     (if old \<noteq> [] \<and> startswith (c # cs) old then replace_skip cs old (length old - 1)
      else c # replace_skip cs old 0)"

definition replace_all :: "'a list \<Rightarrow> 'a list \<Rightarrow> 'a list" where
  "replace_all s old = replace_skip s old 0"

text \<open>\<open>str.lower\<close> on code points below 256, and the \<open>posixpath\<close> functions used.\<close>

definition lower_char :: "char \<Rightarrow> char" where
  "lower_char c =
     (let n = (of_char c :: nat) in
      if (65 \<le> n \<and> n \<le> 90) \<or> (192 \<le> n \<and> n \<le> 222 \<and> n \<noteq> 215) then char_of (n + 32) else c)"

definition lower :: "string \<Rightarrow> string" where
  "lower s = map lower_char s"

definition rfind_char :: "string \<Rightarrow> char \<Rightarrow> int" where
  "rfind_char s c =
     (if c \<in> set s then int (length s) - 1 - int (length (takeWhile (\<lambda>x. x \<noteq> c) (rev s)))
      else - 1)"

definition splitext :: "string \<Rightarrow> string \<times> string" where
  "splitext p =
     (let sepIndex = rfind_char p (CHR ''/'');
          dotIndex = rfind_char p (CHR ''.'')
      in if dotIndex > sepIndex
            \<and> list_ex (\<lambda>x. x \<noteq> CHR ''.'') (substr p (nat (sepIndex + 1)) (nat dotIndex))
         then (take (nat dotIndex) p, drop (nat dotIndex) p)
         else (p, []))"

definition os_path_join :: "string \<Rightarrow> string \<Rightarrow> string" where
  "os_path_join a b =
     (if startswith b ''/'' then b
      else if a = [] \<or> last a = CHR ''/'' then a @ b
      else a @ ''/'' @ b)"

definition os_path_split :: "string \<Rightarrow> string \<times> string" where
  "os_path_split p =
     (let i = nat (rfind_char p (CHR ''/'') + 1);
          h = take i p;
          t = drop i p
      in (if h \<noteq> [] \<and> h \<noteq> replicate (length h) (CHR ''/'')
          then rev (dropWhile (\<lambda>x. x = CHR ''/'') (rev h)) else h, t))"

section \<open>The language registry (\<open>CodeCounter.langs\<close>)\<close>

text \<open>
  A Python dictionary iterates in insertion order, so the registry and the \<open>bcomm\<close>
  dictionaries are association lists in the order of the source.
\<close>

record rule =
  bcomm :: "(ustr \<times> ustr) list"
  comment :: "ustr list"
  endcode :: "ustr list"
  ext :: "string list"

definition clike :: "string list \<Rightarrow> rule" where
  "clike es = \<lparr>bcomm = [(u ''/*'', u ''*/'')], comment = [u ''//''], endcode = [], ext = es\<rparr>"

definition langs :: "(string \<times> rule) list" where
  "langs =
    [(''C'', clike [''.c'']),
     (''C++'', clike [''.cpp'']),
     (''C#'', clike [''.cs'']),
     (''C Header'', clike [''.h'']),
     (''CSS'', \<lparr>bcomm = [(u ''/*'', u ''*/'')], comment = [], endcode = [], ext = [''.css'']\<rparr>),
     (''Cython'', \<lparr>bcomm = [], comment = [u ''#''], endcode = [], ext = [''.pyx'']\<rparr>),
     (''Go'', \<lparr>bcomm = [], comment = [u ''//''], endcode = [], ext = [''.go'']\<rparr>),
     (''HTML'', \<lparr>bcomm = [(u ''<!--'', u ''-->'')], comment = [], endcode = [],
                ext = [''.html'', ''.htm'', ''.jinja'']\<rparr>),
     (''IBM Macro'', \<lparr>bcomm = [(u ''/*'', u ''*/'')], comment = [u [CHR 0x27]], endcode = [],
                     ext = [''.mac'']\<rparr>),
     (''Java'', clike [''.java'']),
     (''Javascript'', clike [''.js'']),
     (''Perl'', \<lparr>bcomm = [], comment = [u ''//'', u ''#''], endcode = [u ''__END__''],
                ext = [''.pl'']\<rparr>),
     (''PHP'', \<lparr>bcomm = [(u ''/*'', u ''*/'')], comment = [u ''//'', u ''#''], endcode = [],
               ext = [''.php'']\<rparr>),
     (''Python'', \<lparr>bcomm = [], comment = [u ''#''], endcode = [], ext = [''.py'', ''.pyw'']\<rparr>),
     (''RPG'', \<lparr>bcomm = [],
               comment = [u ''*'', u ''*'', u ''C*'', u ''c*'', u ''D*'', u ''d*'', u ''F*'', u ''f*'',
                          u ''H*'', u ''h*''],
               endcode = [], ext = [''.rpgle'', ''.sqlrpgle'']\<rparr>),
     (''Ruby'', \<lparr>bcomm = [], comment = [u ''#''], endcode = [u ''__END__''], ext = [''.rb'']\<rparr>),
     (''SQL'', \<lparr>bcomm = [], comment = [], endcode = [], ext = [''.sql'']\<rparr>),
     (''Text'', \<lparr>bcomm = [], comment = [], endcode = [], ext = [''.txt'']\<rparr>),
     (''VB'', \<lparr>bcomm = [(u ''/*'', u ''*/'')], comment = [u [CHR 0x27]], endcode = [],
              ext = [''.vb'', ''.mac'', ''.frm'', ''.bas'']\<rparr>),
     (''XML'', \<lparr>bcomm = [(u ''<!--'', u ''-->'')], comment = [], endcode = [],
               ext = [''.xml'', ''.csproj'']\<rparr>),
     (''Yaml'', \<lparr>bcomm = [], comment = [u ''#''], endcode = [], ext = [''.yaml'']\<rparr>)]"

text \<open>The loop \<open>for l in self.langs: if filename.extension in self.langs[l]["ext"]\<close>.\<close>

fun resolve :: "(string \<times> rule) list \<Rightarrow> string \<Rightarrow> string option" where
  "resolve [] e = None"
| "resolve ((l, r) # rest) e = (if e \<in> set (ext r) then Some l else resolve rest e)"

section \<open>The operating system\<close>

text \<open>
  What the program asks of the file system is a parameter of the model: whether a path
  is a directory or a regular file, what \<open>os.walk\<close> finds below a directory (each
  directory with its file names and its sub-directories, in the order the system lists
  them), the size \<open>os.stat\<close> reports, the bytes \<open>open\<close> reads (\<open>None\<close> is an
  \<open>OSError\<close>) and whether a file can be opened for writing. \<open>os_runtime\<close> is the text
  of the elapsed time that \<open>run\<close> prints.
\<close>

datatype dirtree = DirTree "string list" "(string \<times> dirtree) list"

record env =
  os_isdir :: "string \<Rightarrow> bool"
  os_isfile :: "string \<Rightarrow> bool"
  os_walk :: "string \<Rightarrow> dirtree"
  os_stat_size :: "string \<Rightarrow> int option"
  os_read :: "string \<Rightarrow> byte list option"
  os_writable :: "string \<Rightarrow> bool"
  os_runtime :: string

section \<open>\<open>class Filename\<close>\<close>

record Filename =
  path :: string
  name :: string
  extension :: string
  lang :: "string option"
  lines :: int
  comments :: int
  blanks :: int
  code :: int
  fsize :: int
  sha256 :: "byte list option"
  shortpath :: string
  shortname :: string

datatype 'a res = Returns 'a | Raises error | Diverges

definition Filename_init :: "env \<Rightarrow> string \<Rightarrow> string \<Rightarrow> string \<Rightarrow> Filename res" where
  "Filename_init e argpath pth filename =
     (let extn = lower (snd (splitext filename)) in
      case os_stat_size e (os_path_join pth filename) of
        None \<Rightarrow> Raises OSError
      | Some sz \<Rightarrow>
          Returns \<lparr>path = pth, name = filename, extension = extn, lang = None,
                   lines = 0, comments = 0, blanks = 0, code = 0, fsize = sz, sha256 = None,
                   shortpath = ''.'' @ strip_name (substr pth (length argpath) (length argpath + 78)),
                   shortname = (if length filename > 30
                                then strip_name (take 20 filename) @ ''~'' @ extn
                                else filename)\<rparr>)"

section \<open>\<open>CodeCounter.scanfile\<close>\<close>

text \<open>
  The local variables of \<open>scanfile\<close> that live across lines. \<open>sha_fed\<close> is the
  \<open>hashlib\<close> object: the bytes it has been fed.
\<close>

record scan_state =
  strblock :: "ustr option"
  endblock :: "ustr option"
  inblock :: bool
  endcode_flag :: bool
  sha_fed :: "byte list"

definition init_state :: scan_state where
  "init_state = \<lparr>strblock = None, endblock = None, inblock = False, endcode_flag = False,
                 sha_fed = []\<rparr>"

text \<open>
  One pass through the body of \<open>while token in line\<close>, on the line and the flag
  \<open>inblock\<close>: it either breaks or goes round again.
\<close>

datatype 'a iter = Break 'a | Again 'a

definition while_body :: "ustr \<Rightarrow> ustr \<Rightarrow> ustr \<times> bool \<Rightarrow> (ustr \<times> bool) iter" where
  "while_body sblock eblock s =
     (let line = fst s;
          spos = str_find line sblock 0;
          epos = str_find line eblock (nat spos)
      in if epos > 0 then
           (let epos = epos + int (length eblock) in
            if contains line eblock
            then Again (replace1 line (substr line (nat spos) (nat epos)), snd s)
            else Again (replace1 line (drop (nat spos) line), True))
         else Break s)"

text \<open>
  The \<open>while\<close> loop. A pass that does not shorten the line leaves it as it was (an empty
  end token), so the source goes round for ever: \<open>None\<close>.
\<close>

function bcomm_while :: "ustr \<Rightarrow> ustr \<Rightarrow> ustr \<times> bool \<Rightarrow> (ustr \<times> bool) option" where
  "bcomm_while token eblock s =
     (if contains (fst s) token then
        (case while_body token eblock s of
           Break s' \<Rightarrow> Some s'
         | Again s' \<Rightarrow>
             if length (fst s') < length (fst s) then bcomm_while token eblock s' else None)
      else Some s)"
  by pat_completeness auto
termination
  by (relation "measure (\<lambda>(t, e, s). length (fst s))") auto

text \<open>\<open>for token in self.langs[filename.lang]["bcomm"]\<close>\<close>

fun bcomm_for :: "(ustr \<times> ustr) list \<Rightarrow> scan_state \<times> ustr \<Rightarrow> (scan_state \<times> ustr) res" where
  "bcomm_for [] sl = Returns sl"
| "bcomm_for ((token, eblock) # ps) sl =
     (case bcomm_while token eblock (snd sl, inblock (fst sl)) of
        None \<Rightarrow> Diverges
      | Some s' \<Rightarrow>
          bcomm_for ps ((fst sl)\<lparr>strblock := Some token, endblock := Some eblock,
                                 inblock := snd s'\<rparr>, fst s'))"

text \<open>The \<open>else\<close> branch: the line of a file that is inside a block comment.\<close>

definition inblock_line :: "scan_state \<Rightarrow> ustr \<Rightarrow> (scan_state \<times> ustr) res" where
  "inblock_line st line =
     (case endblock st of
        None \<Rightarrow> Raises TypeError
      | Some eblock \<Rightarrow>
          if contains line eblock
          then Returns (st\<lparr>inblock := False\<rparr>,
                  strip (replace_all line
                           (take (nat (str_find line eblock 0 + int (length eblock))) line)))
          else Returns (st, []))"

text \<open>
  From \<open>if line is ""\<close> to the end of the loop body. \<open>self.langs[filename.lang]\<close> is
  looked up where the source does (\<open>None\<close>: the key is missing). The identity test
  \<open>line is ""\<close> is modelled as equality with the empty string.
\<close>

definition classify :: "rule option \<Rightarrow> scan_state \<Rightarrow> Filename \<Rightarrow> ustr \<Rightarrow> (scan_state \<times> Filename) res" where
  "classify ro st f line =
     (if line = [] then Returns (st, f\<lparr>comments := comments f + 1\<rparr>)
      else case ro of
        None \<Rightarrow> Raises KeyError
      | Some r \<Rightarrow>
          if list_ex (startswith line) (comment r)
          then Returns (st, f\<lparr>comments := comments f + 1\<rparr>)
          else Returns (if list_ex (\<lambda>e. line = e) (endcode r) then st\<lparr>endcode_flag := True\<rparr> else st,
                        f\<lparr>code := code f + 1\<rparr>))"

text \<open>The body of \<open>for line in fp\<close>.\<close>

definition scan_line :: "rule option \<Rightarrow> scan_state \<times> Filename \<Rightarrow> ustr \<Rightarrow> (scan_state \<times> Filename) res" where
  "scan_line ro sf raw_line =
     (case encode_utf8 raw_line of
        None \<Rightarrow> Raises UnicodeEncodeError
      | Some bs \<Rightarrow>
          (let st = (fst sf)\<lparr>sha_fed := sha_fed (fst sf) @ bs\<rparr>;
               f = (snd sf)\<lparr>lines := lines (snd sf) + 1\<rparr>;
               line = strip raw_line
           in if line = [] then Returns (st, f\<lparr>blanks := blanks f + 1\<rparr>)
              else if endcode_flag st then Returns (st, f\<lparr>comments := comments f + 1\<rparr>)
              else
                (case (if \<not> inblock st
                       then (case ro of
                               None \<Rightarrow> Raises KeyError
                             | Some r \<Rightarrow> bcomm_for (bcomm r) (st, line))
                       else inblock_line st line) of
                   Returns sl \<Rightarrow> classify ro (fst sl) f (snd sl)
                 | Raises e \<Rightarrow> Raises e
                 | Diverges \<Rightarrow> Diverges)))"

fun scan_lines :: "rule option \<Rightarrow> scan_state \<times> Filename \<Rightarrow> ustr list \<Rightarrow> (scan_state \<times> Filename) res" where
  "scan_lines ro sf [] = Returns sf"
| "scan_lines ro sf (l # ls) =
     (case scan_line ro sf l of
        Returns sf' \<Rightarrow> scan_lines ro sf' ls
      | Raises e \<Rightarrow> Raises e
      | Diverges \<Rightarrow> Diverges)"

definition scanfile :: "(string \<times> rule) list \<Rightarrow> env \<Rightarrow> Filename \<Rightarrow> Filename res" where
  "scanfile lgs e f =
     (if fsize f = 0 then Returns f
      else
        (let f = (case resolve lgs (extension f) of None \<Rightarrow> f | Some l \<Rightarrow> f\<lparr>lang := Some l\<rparr>) in
         case lang f of
           None \<Rightarrow> Returns f
         | Some l \<Rightarrow>
             (case os_read e (os_path_join (path f) (name f)) of
                None \<Rightarrow> Raises OSError
              | Some raw \<Rightarrow>
                  (case scan_lines (map_of lgs l) (init_state, f) (file_lines raw) of
                     Returns sf \<Rightarrow> Returns ((snd sf)\<lparr>sha256 := Some (hashlib_sha256 (sha_fed (fst sf)))\<rparr>)
                   | Raises err \<Rightarrow> Raises err
                   | Diverges \<Rightarrow> Diverges))))"

section \<open>\<open>CodeCounter\<close>: the run\<close>

record args =
  args_path :: string
  args_byfile :: bool
  args_bygroup :: bool
  args_bylang :: bool
  args_output_languages :: bool
  args_time :: bool
  args_debug :: bool
  args_include :: bool
  args_markup :: "string option"

record CodeCounter =
  filelist :: "Filename list"
  tfiles :: int
  tlines :: int
  tcode :: int
  tcomments :: int
  tblanks :: int

definition CodeCounter_init :: CodeCounter where
  "CodeCounter_init = \<lparr>filelist = [], tfiles = 0, tlines = 0, tcode = 0, tcomments = 0, tblanks = 0\<rparr>"

definition ignoredirs :: "string list" where
  "ignoredirs = [''.hg'', ''.bzr'', ''.svn'', ''.git'', ''.idea'', ''__pycache__'']"

subsection \<open>\<open>listfiles\<close> and \<open>walk\<close>\<close>

text \<open>\<open>folders.remove(folder)\<close>: the first entry of that name goes.\<close>

fun remove_folder :: "string \<Rightarrow> (string \<times> dirtree) list \<Rightarrow> (string \<times> dirtree) list" where
  "remove_folder d [] = []"
| "remove_folder d (x # xs) = (if fst x = d then xs else x # remove_folder d xs)"

definition prune :: "(string \<times> dirtree) list \<Rightarrow> (string \<times> dirtree) list" where
  "prune folders = foldl (\<lambda>fs d. remove_folder d fs) folders ignoredirs"

fun walk_files :: "env \<Rightarrow> string \<Rightarrow> string \<Rightarrow> string list \<Rightarrow> Filename list res" where
  "walk_files e argpath root [] = Returns []"
| "walk_files e argpath root (filename # rest) =
     (if os_isfile e (root @ ''/'' @ filename) then
        (case Filename_init e argpath root filename of
           Returns f \<Rightarrow>
             (case walk_files e argpath root rest of
                Returns fs \<Rightarrow> Returns (f # fs)
              | Raises err \<Rightarrow> Raises err
              | Diverges \<Rightarrow> Diverges)
         | Raises err \<Rightarrow> Raises err
         | Diverges \<Rightarrow> Diverges)
      else walk_files e argpath root rest)"

lemma size_remove_folder: "size_list f (remove_folder d xs) \<le> size_list f xs"
  by (induction xs) auto

lemma size_prune_fold: "size_list f (foldl (\<lambda>fs d. remove_folder d fs) xs ds) \<le> size_list f xs"
proof (induction ds arbitrary: xs)
  case Nil
  show ?case by simp
next
  case (Cons d ds)
  have "size_list f (foldl (\<lambda>fs d. remove_folder d fs) (remove_folder d xs) ds)
          \<le> size_list f (remove_folder d xs)"
    by (rule Cons.IH)
  also have "\<dots> \<le> size_list f xs"
    by (rule size_remove_folder)
  finally show ?case by simp
qed

lemma size_prune: "size_list f (prune xs) \<le> size_list f xs"
  unfolding prune_def by (rule size_prune_fold)

text \<open>
  \<open>for root, folders, files in os.walk(path)\<close>: a directory's files first, then the
  sub-directories that are left after the ignored names were removed, top down.
\<close>

function walk_tree :: "env \<Rightarrow> string \<Rightarrow> string \<Rightarrow> dirtree \<Rightarrow> Filename list res"
  and walk_folders :: "env \<Rightarrow> string \<Rightarrow> string \<Rightarrow> (string \<times> dirtree) list \<Rightarrow> Filename list res" where
  "walk_tree e argpath root (DirTree files folders) =
     (case walk_files e argpath root files of
        Returns fs \<Rightarrow>
          (case walk_folders e argpath root (prune folders) of
             Returns gs \<Rightarrow> Returns (fs @ gs)
           | Raises err \<Rightarrow> Raises err
           | Diverges \<Rightarrow> Diverges)
      | Raises err \<Rightarrow> Raises err
      | Diverges \<Rightarrow> Diverges)"
| "walk_folders e argpath root [] = Returns []"
| "walk_folders e argpath root (x # xs) =
     (case walk_tree e argpath (os_path_join root (fst x)) (snd x) of
        Returns fs \<Rightarrow>
          (case walk_folders e argpath root xs of
             Returns gs \<Rightarrow> Returns (fs @ gs)
           | Raises err \<Rightarrow> Raises err
           | Diverges \<Rightarrow> Diverges)
      | Raises err \<Rightarrow> Raises err
      | Diverges \<Rightarrow> Diverges)"
  by pat_completeness auto
termination
proof (relation "measure (\<lambda>x. case x of
          Inl (e, a, r, t) \<Rightarrow> size t
        | Inr (e, a, r, xs) \<Rightarrow> size_list (size_prod (\<lambda>_. 0) size) xs)")
  show "wf (measure (\<lambda>x. case x of
          Inl (e, a, r, t) \<Rightarrow> size t
        | Inr (e, a, r, xs) \<Rightarrow> size_list (size_prod (\<lambda>_. 0) size) xs))"
    by simp
next
  fix e :: env and argpath root :: string and files folders
  have "size_list (size_prod (\<lambda>_. 0) size) (prune folders)
          \<le> size_list (size_prod (\<lambda>_. 0) size) folders"
    by (rule size_prune)
  then show "(Inr (e, argpath, root, prune folders), Inl (e, argpath, root, DirTree files folders))
        \<in> measure (\<lambda>x. case x of
          Inl (e, a, r, t) \<Rightarrow> size t
        | Inr (e, a, r, xs) \<Rightarrow> size_list (size_prod (\<lambda>_. 0) size) xs)"
    by simp
next
  fix e :: env and argpath root :: string and x :: "string \<times> dirtree" and xs
  show "(Inl (e, argpath, os_path_join root (fst x), snd x), Inr (e, argpath, root, x # xs))
        \<in> measure (\<lambda>x. case x of
          Inl (e, a, r, t) \<Rightarrow> size t
        | Inr (e, a, r, xs) \<Rightarrow> size_list (size_prod (\<lambda>_. 0) size) xs)"
    by (cases x) simp
next
  fix e :: env and argpath root :: string and x :: "string \<times> dirtree" and xs
  show "(Inr (e, argpath, root, xs), Inr (e, argpath, root, x # xs))
        \<in> measure (\<lambda>x. case x of
          Inl (e, a, r, t) \<Rightarrow> size t
        | Inr (e, a, r, xs) \<Rightarrow> size_list (size_prod (\<lambda>_. 0) size) xs)"
    by simp
qed

definition walk :: "env \<Rightarrow> string \<Rightarrow> Filename list \<Rightarrow> Filename list res" where
  "walk e pth fl =
     (case walk_tree e pth pth (os_walk e pth) of
        Returns fs \<Rightarrow> Returns (fl @ fs)
      | Raises err \<Rightarrow> Raises err
      | Diverges \<Rightarrow> Diverges)"

definition listfiles :: "env \<Rightarrow> args \<Rightarrow> Filename list \<Rightarrow> Filename list res" where
  "listfiles e a fl =
     (if os_isdir e (args_path a) then walk e (args_path a) fl
      else
        (let root = fst (os_path_split (args_path a));
             filename = snd (os_path_split (args_path a))
         in if os_isfile e (root @ ''/'' @ filename) then
              (case Filename_init e (args_path a) root filename of
                 Returns f \<Rightarrow> Returns (fl @ [f])
               | Raises err \<Rightarrow> Raises err
               | Diverges \<Rightarrow> Diverges)
            else Returns fl))"

subsection \<open>Scanning every file, \<open>remove_duplicates\<close> and the totals\<close>

text \<open>
  What a run does is recorded as a list of events, in order: the directory walk, each
  call of \<open>scanfile\<close>, the registry written to a file, each \<open>print\<close>.
\<close>

datatype event =
    EvWalk string
  | EvScanfile string string
  | EvWriteLanguages string "(string \<times> rule) list"
  | EvPrint string

fun scan_all :: "(string \<times> rule) list \<Rightarrow> env \<Rightarrow> Filename list \<Rightarrow> event list \<times> Filename list res" where
  "scan_all lgs e [] = ([], Returns [])"
| "scan_all lgs e (f # fs) =
     (case scanfile lgs e f of
        Returns f' \<Rightarrow>
          (EvScanfile (path f) (name f) # fst (scan_all lgs e fs),
           case snd (scan_all lgs e fs) of
             Returns fs' \<Rightarrow> Returns (f' # fs')
           | Raises err \<Rightarrow> Raises err
           | Diverges \<Rightarrow> Diverges)
      | Raises err \<Rightarrow> ([EvScanfile (path f) (name f)], Raises err)
      | Diverges \<Rightarrow> ([EvScanfile (path f) (name f)], Diverges))"

text \<open>
  The dictionary \<open>unique\<close> is an association list in insertion order; a digest that is
  a key already is not stored again.
\<close>

fun unique_add :: "(byte list option \<times> Filename) list \<Rightarrow> Filename list
    \<Rightarrow> (byte list option \<times> Filename) list" where
  "unique_add un [] = un"
| "unique_add un (f # fs) =
     unique_add (if map_of un (sha256 f) = None then un @ [(sha256 f, f)] else un) fs"

definition remove_duplicates :: "Filename list \<Rightarrow> Filename list" where
  "remove_duplicates fl = map snd (unique_add [] fl)"

definition dedup_step :: "args \<Rightarrow> Filename list \<Rightarrow> Filename list" where
  "dedup_step a fl = (if \<not> args_include a then remove_duplicates fl else fl)"

fun add_totals :: "CodeCounter \<Rightarrow> Filename list \<Rightarrow> CodeCounter" where
  "add_totals cc [] = cc"
| "add_totals cc (f # fs) =
     add_totals
       (cc\<lparr>tfiles := (if lines f > 0 then tfiles cc + 1 else tfiles cc),
           tlines := tlines cc + lines f,
           tcode := tcode cc + code f,
           tcomments := tcomments cc + comments f,
           tblanks := tblanks cc + blanks f\<rparr>) fs"

subsection \<open>Reports\<close>

text \<open>\<open>"{:<n}".format\<close>, \<open>"{:>n}".format\<close> and \<open>str\<close> of an integer.\<close>

definition ljust :: "nat \<Rightarrow> string \<Rightarrow> string" where
  "ljust n s = s @ replicate (n - length s) (CHR '' '')"

definition rjust :: "nat \<Rightarrow> string \<Rightarrow> string" where
  "rjust n s = replicate (n - length s) (CHR '' '') @ s"

fun digits :: "nat \<Rightarrow> string" where
  "digits n =
     (if n < 10 then [char_of (48 + n)] else digits (n div 10) @ [char_of (48 + n mod 10)])"

definition str_int :: "int \<Rightarrow> string" where
  "str_int i = (if i < 0 then ''-'' @ digits (nat (- i)) else digits (nat i))"

definition version :: string where
  "version = ''0.1''"

definition dashes :: string where
  "dashes = replicate 79 (CHR ''-'')"

definition report_header :: "string \<Rightarrow> string" where
  "report_header reporttype =
     ''Codecount - v '' @ version @ [CHR 0x0A] @ dashes @ [CHR 0x0A]
     @ ljust 29 reporttype @ rjust 10 ''Files'' @ rjust 10 ''Blank'' @ rjust 10 ''Comment''
     @ rjust 10 ''Code'' @ rjust 10 ''Lines'' @ [CHR 0x0A] @ dashes"

definition report_detail :: "string \<Rightarrow> int \<Rightarrow> int \<Rightarrow> int \<Rightarrow> int \<Rightarrow> int \<Rightarrow> string" where
  "report_detail txt files blnks cmnts cde lns =
     ljust 29 txt @ rjust 10 (str_int files) @ rjust 10 (str_int blnks)
     @ rjust 10 (str_int cmnts) @ rjust 10 (str_int cde) @ rjust 10 (str_int lns)"

definition report_summary :: "CodeCounter \<Rightarrow> string" where
  "report_summary cc =
     dashes @ [CHR 0x0A] @ ljust 29 ''Totals'' @ rjust 10 (str_int (tfiles cc))
     @ rjust 10 (str_int (tblanks cc)) @ rjust 10 (str_int (tcomments cc))
     @ rjust 10 (str_int (tcode cc)) @ rjust 10 (str_int (tlines cc)) @ [CHR 0x0A] @ dashes"

text \<open>
  \<open>sorted\<close> is stable, also with \<open>reverse=True\<close>; \<open>sort_key\<close> is a stable insertion
  sort, so the descending order is the ascending order of the negated key.
\<close>

definition file_rows :: "Filename list \<Rightarrow> string list" where
  "file_rows fl =
     map (\<lambda>f. report_detail (shortname f) 1 (blanks f) (comments f) (code f) (lines f))
       (filter (\<lambda>f. lang f \<noteq> None) (sort_key (\<lambda>f. - code f) fl))"

definition report_file :: "CodeCounter \<Rightarrow> string list" where
  "report_file cc = [report_header ''By File''] @ file_rows (filelist cc) @ [report_summary cc]"

text \<open>The dictionary \<open>total\<close> of \<open>report_dir\<close> and \<open>report_lang\<close>.\<close>

record total =
  t_key :: "string option"
  t_blank :: int
  t_comment :: int
  t_file :: int
  t_code :: int
  t_line :: int

definition total_init :: total where
  "total_init = \<lparr>t_key = None, t_blank = 0, t_comment = 0, t_file = 0, t_code = 0, t_line = 0\<rparr>"

definition total_add :: "total \<Rightarrow> Filename \<Rightarrow> total" where
  "total_add t f =
     t\<lparr>t_blank := t_blank t + blanks f, t_comment := t_comment t + comments f,
       t_file := t_file t + 1, t_code := t_code t + code f, t_line := t_line t + lines f\<rparr>"

definition total_reset :: "string \<Rightarrow> Filename \<Rightarrow> total" where
  "total_reset k f =
     \<lparr>t_key = Some k, t_blank = blanks f, t_comment = comments f, t_file = 1, t_code = code f,
      t_line = lines f\<rparr>"

text \<open>The truth value of \<open>total["dir"]\<close> and \<open>total["lang"]\<close>: a non-empty string.\<close>

definition truthy :: "string option \<Rightarrow> bool" where
  "truthy k = (case k of None \<Rightarrow> False | Some s \<Rightarrow> s \<noteq> [])"

definition total_detail :: "string \<Rightarrow> total \<Rightarrow> string" where
  "total_detail txt t = report_detail txt (t_file t) (t_blank t) (t_comment t) (t_code t) (t_line t)"

text \<open>
  The loop of \<open>report_dir\<close>. Its test \<open>filename.shortpath is None\<close> is never true (the
  constructor makes \<open>shortpath\<close> a string), so no record is left out.
\<close>

fun dir_rows :: "total \<Rightarrow> Filename list \<Rightarrow> string list" where
  "dir_rows t [] = (if truthy (t_key t) then [total_detail [] t] else [])"
| "dir_rows t (f # fs) =
     (if Some (shortpath f) = t_key t then dir_rows (total_add t f) fs
      else (if truthy (t_key t) then [total_detail [] t, dashes] else [])
           @ [ljust 78 (shortpath f)] @ dir_rows (total_reset (shortpath f) f) fs)"

definition report_dir :: "CodeCounter \<Rightarrow> string list" where
  "report_dir cc =
     [report_header ''By Directory''] @ dir_rows total_init (sort_key shortpath (filelist cc))
     @ [report_summary cc]"

definition str_lang :: "string option \<Rightarrow> string" where
  "str_lang l = (case l of None \<Rightarrow> ''None'' | Some x \<Rightarrow> x)"

fun lang_rows :: "total \<Rightarrow> Filename list \<Rightarrow> string list" where
  "lang_rows t [] = (if truthy (t_key t) then [total_detail (str_lang (t_key t)) t] else [])"
| "lang_rows t (f # fs) =
     (if lang f = None then lang_rows t fs
      else if lang f = t_key t then lang_rows (total_add t f) fs
      else (if truthy (t_key t) then [total_detail (str_lang (t_key t)) t] else [])
           @ lang_rows (total_reset (str_lang (lang f)) f) fs)"

definition report_lang :: "CodeCounter \<Rightarrow> string list" where
  "report_lang cc =
     [report_header ''By Language'']
     @ lang_rows total_init (sort_key (\<lambda>f. str_lang (lang f)) (filelist cc))
     @ [report_summary cc]"

definition report :: "args \<Rightarrow> CodeCounter \<Rightarrow> string list" where
  "report a cc =
     (if args_bylang a then report_lang cc
      else if args_bygroup a then report_dir cc
      else if args_byfile a then report_file cc
      else [])"

subsection \<open>\<open>run\<close>\<close>

text \<open>
  \<open>run\<close> after \<open>commandline\<close> has parsed the arguments: the events of the run, the
  counter object at its end, and how it ended (\<open>sys.exit\<close> raises \<open>SystemExit\<close>). The
  log messages are not modelled.
\<close>

definition run :: "(string \<times> rule) list \<Rightarrow> env \<Rightarrow> args \<Rightarrow> event list \<times> CodeCounter \<times> unit res" where
  "run lgs e a =
     (let cc = CodeCounter_init;
          ev1 = (if os_isdir e (args_path a) then [EvWalk (args_path a)] else [])
      in case listfiles e a (filelist cc) of
           Raises err \<Rightarrow> (ev1, cc, Raises err)
         | Diverges \<Rightarrow> (ev1, cc, Diverges)
         | Returns fl \<Rightarrow>
             (let cc = cc\<lparr>filelist := fl\<rparr> in
              if args_output_languages a then
                (if os_writable e ''languages.json''
                 then (ev1 @ [EvWriteLanguages ''languages.json'' lgs], cc,
                       Raises (SystemExit ''File languages.json created.''))
                 else (ev1, cc, Raises OSError))
              else
                (let ev2 = ev1 @ fst (scan_all lgs e fl) in
                 case snd (scan_all lgs e fl) of
                   Raises err \<Rightarrow> (ev2, cc, Raises err)
                 | Diverges \<Rightarrow> (ev2, cc, Diverges)
                 | Returns fl' \<Rightarrow>
                     (let cc = add_totals (cc\<lparr>filelist := dedup_step a fl'\<rparr>) (dedup_step a fl') in
                      if tlines cc - tcode cc - tcomments cc - tblanks cc = 0 then
                        (ev2 @ map EvPrint (report a cc)
                           @ (if args_time a
                              then [EvPrint (''Runtime: '' @ os_runtime e @ '' seconds'')] else []),
                         cc, Returns ())
                      else (ev2, cc, Raises AssertionError)))))"

section \<open>Concrete inputs\<close>

text \<open>
  A file system whose root \<open>.\<close> is a directory holding the given files (name and
  content), and the arguments of a run on it.
\<close>

definition flat_env :: "(string \<times> byte list) list \<Rightarrow> env" where
  "flat_env files =
     \<lparr>os_isdir = (\<lambda>p. p = ''.''),
      os_isfile = (\<lambda>p. p \<in> set (map (\<lambda>x. ''./'' @ fst x) files)),
      os_walk = (\<lambda>p. DirTree (map fst files) []),
      os_stat_size = (\<lambda>p. map_option (\<lambda>c. int (length c)) (map_of (map (\<lambda>x. (''./'' @ fst x, snd x)) files) p)),
      os_read = (\<lambda>p. map_of (map (\<lambda>x. (''./'' @ fst x, snd x)) files) p),
      os_writable = (\<lambda>p. True),
      os_runtime = ''0.0''\<rparr>"

definition default_args :: args where
  "default_args =
     \<lparr>args_path = ''.'', args_byfile = True, args_bygroup = False, args_bylang = False,
      args_output_languages = False, args_time = True, args_debug = False, args_include = False,
      args_markup = None\<rparr>"

definition ascii :: "string \<Rightarrow> byte list" where
  "ascii s = map of_char s"

text \<open>A directory with one C file of three lines: code, blank, line comment.\<close>

definition small_c :: "byte list" where
  "small_c = ascii ''int x;\<newline>\<newline>// c\<newline>''"

definition small_file :: Filename where
  "small_file =
     \<lparr>path = ''.'', name = ''a.c'', extension = ''.c'', lang = None, lines = 0, comments = 0,
      blanks = 0, code = 0, fsize = 13, sha256 = None, shortpath = ''.'', shortname = ''a.c''\<rparr>"

text \<open>A file in the directory \<open>.\<close> of a run on \<open>.\<close>, as \<open>listfiles\<close> records it.\<close>

definition top_file :: "string \<Rightarrow> string \<Rightarrow> int \<Rightarrow> Filename" where
  "top_file n ex sz =
     \<lparr>path = ''.'', name = n, extension = ex, lang = None, lines = 0, comments = 0,
      blanks = 0, code = 0, fsize = sz, sha256 = None, shortpath = ''.'', shortname = n\<rparr>"

text \<open>The three lines of the block-comment example, in a C file.\<close>

definition block_c :: "byte list" where
  "block_c = ascii ''int x; /* start\<newline>still comment\<newline>end */ int y;\<newline>''"

text \<open>The four lines of the sentinel example, in a Perl file.\<close>

definition sentinel_pl :: "byte list" where
  "sentinel_pl = ascii ''code();\<newline>__END__\<newline>more(); \<newline>\<newline>''"

text \<open>A directory holding one file whose extension is in no rule.\<close>

definition notes_env :: env where
  "notes_env = flat_env [(''notes.foo'', ascii ''hello\<newline>'')]"

definition notes_file :: Filename where
  "notes_file = top_file ''notes.foo'' ''.foo'' 6"

text \<open>A directory holding two C files with the same content, and their records after the
  scan.\<close>

definition twin_env :: env where
  "twin_env = flat_env [(''a.c'', small_c), (''b.c'', small_c)]"

definition scanned_c :: "string \<Rightarrow> Filename" where
  "scanned_c n =
     (top_file n ''.c'' 13)\<lparr>lang := Some ''C'', lines := 3, comments := 1, blanks := 1, code := 1,
                             sha256 := Some (hashlib_sha256 small_c)\<rparr>"

text \<open>
  A directory holding \<open>x.c\<close> with the bytes \<open>a\<close>, \<open>0xFF\<close>, newline, and then \<open>a.c\<close> and
  \<open>b.c\<close>, both with the bytes \<open>a\<close>, newline.
\<close>

definition triple_env :: env where
  "triple_env = flat_env [(''x.c'', [0x61, 0xFF, 0x0A]), (''a.c'', [0x61, 0x0A]), (''b.c'', [0x61, 0x0A])]"

text \<open>A directory holding one file with the extension \<open>.MAC\<close>.\<close>

definition mac_env :: env where
  "mac_env = flat_env [(''X.MAC'', ascii ''a\<newline>'')]"

text \<open>A directory holding \<open>Main.PY\<close> and \<open>main.py\<close>.\<close>

definition py_env :: env where
  "py_env = flat_env [(''Main.PY'', ascii ''x\<newline>''), (''main.py'', ascii ''x\<newline>'')]"

section \<open>Notions used in the statements\<close>

text \<open>The flags and the digest that the loop over the block-comment pairs leaves alone.\<close>

definition same_flags :: "scan_state \<Rightarrow> scan_state \<Rightarrow> bool" where
  "same_flags st st' =
     (inblock st' = inblock st \<and> endcode_flag st' = endcode_flag st \<and> sha_fed st' = sha_fed st)"

text \<open>Exactly one of the three counters goes up by one, with the line count.\<close>

definition one_counter_step :: "Filename \<Rightarrow> Filename \<Rightarrow> bool" where
  "one_counter_step f f' =
     (f' = f\<lparr>lines := lines f + 1, blanks := blanks f + 1\<rparr>
      \<or> f' = f\<lparr>lines := lines f + 1, comments := comments f + 1\<rparr>
      \<or> f' = f\<lparr>lines := lines f + 1, code := code f + 1\<rparr>)"

text \<open>The fields that scanning the lines never writes.\<close>

definition same_file :: "Filename \<Rightarrow> Filename \<Rightarrow> bool" where
  "same_file f f' =
     (path f' = path f \<and> name f' = name f \<and> extension f' = extension f \<and> lang f' = lang f
      \<and> fsize f' = fsize f \<and> sha256 f' = sha256 f \<and> shortpath f' = shortpath f
      \<and> shortname f' = shortname f)"

text \<open>A Unicode scalar value: a code point that \<open>str.encode("utf-8")\<close> accepts.\<close>

definition scalar :: "nat \<Rightarrow> bool" where
  "scalar c = (c < 0xD800 \<or> (0xE000 \<le> c \<and> c < 0x110000))"

text \<open>The counters of a record, in the order code, comment, blank, lines.\<close>

definition counts :: "Filename \<Rightarrow> int \<times> int \<times> int \<times> int" where
  "counts f = (code f, comments f, blanks f, lines f)"

text \<open>A record as the constructor leaves it, and the invariant of the counters.\<close>

definition fresh :: "Filename \<Rightarrow> bool" where
  "fresh f = (lang f = None \<and> lines f = 0 \<and> comments f = 0 \<and> blanks f = 0 \<and> code f = 0
              \<and> sha256 f = None)"

definition balanced :: "Filename \<Rightarrow> bool" where
  "balanced f = (lines f = code f + comments f + blanks f)"

text \<open>
  A registry as a dictionary of the source is: no language twice, and (as in \<open>langs\<close>) no
  empty end token of a block comment.
\<close>

definition registry_ok :: "(string \<times> rule) list \<Rightarrow> bool" where
  "registry_ok lgs =
     (distinct (map fst lgs) \<and> list_all (\<lambda>x. list_all (\<lambda>p. snd p \<noteq> []) (bcomm (snd x))) lgs)"

definition totals_balanced :: "CodeCounter \<Rightarrow> bool" where
  "totals_balanced cc = (tlines cc - tcode cc - tcomments cc - tblanks cc = 0)"

text \<open>The counter object before the assertion of \<open>run\<close>.\<close>

definition counted :: "args \<Rightarrow> Filename list \<Rightarrow> CodeCounter" where
  "counted a fl' = add_totals (CodeCounter_init\<lparr>filelist := dedup_step a fl'\<rparr>) (dedup_step a fl')"

text \<open>
  Two names that differ only in letter case: of the same length, and at each position the
  same character or a capital letter and its small letter (\<open>A\<close> to \<open>Z\<close>, and the
  capital letters of Latin-1).
\<close>

definition is_upper :: "char \<Rightarrow> bool" where
  "is_upper c =
     ((65 \<le> (of_char c :: nat) \<and> (of_char c :: nat) \<le> 90)
      \<or> (192 \<le> (of_char c :: nat) \<and> (of_char c :: nat) \<le> 222 \<and> (of_char c :: nat) \<noteq> 215))"

definition same_letter :: "char \<Rightarrow> char \<Rightarrow> bool" where
  "same_letter a b =
     (a = b \<or> (is_upper a \<and> (of_char b :: nat) = of_char a + 32)
      \<or> (is_upper b \<and> (of_char a :: nat) = of_char b + 32))"

definition differ_in_case :: "string \<Rightarrow> string \<Rightarrow> bool" where
  "differ_in_case s t = list_all2 same_letter s t"

section \<open>A test vector of SHA-256\<close>

text \<open>The digest of the three bytes \<open>abc\<close>, as FIPS 180-4 gives it.\<close>

lemma hashlib_sha256_abc:
  "hashlib_sha256 (map of_char ''abc'')
     = [0xba, 0x78, 0x16, 0xbf, 0x8f, 0x01, 0xcf, 0xea, 0x41, 0x41, 0x40, 0xde, 0x5d, 0xae, 0x22, 0x23,
        0xb0, 0x03, 0x61, 0xa3, 0x96, 0x17, 0x7a, 0x9c, 0xb4, 0x10, 0xff, 0x61, 0xf2, 0x00, 0x15, 0xad]"
  by code_simp

section \<open>Properties of the string operations\<close>

lemma startswith_Nil [simp]: "startswith s []"
  by (simp add: startswith_def)

lemma startswith_length: "startswith s p \<Longrightarrow> length p \<le> length s"
proof -
  assume "startswith s p"
  then have "length (take (length p) s) = length p" by (simp add: startswith_def)
  then show ?thesis by simp
qed

lemma contains_drop: "contains (drop n s) sub \<Longrightarrow> contains s sub"
proof (induction s arbitrary: n)
  case Nil
  then show ?case by simp
next
  case (Cons c cs)
  show ?case
  proof (cases n)
    case 0
    with Cons.prems show ?thesis by simp
  next
    case (Suc m)
    with Cons.prems have "contains (drop m cs) sub" by simp
    then have "contains cs sub" by (rule Cons.IH)
    then show ?thesis by simp
  qed
qed

lemma contains_take_self: "contains s (take n s)"
  by (cases s) (simp_all add: startswith_def min_def)

lemma contains_slice: "contains s (substr s a b)"
  unfolding substr_def by (rule contains_drop [of a]) (rule contains_take_self)

lemma find_at_bounds:
  "0 \<le> find_at s sub i \<Longrightarrow> int i \<le> find_at s sub i \<and> find_at s sub i + int (length sub) \<le> int i + int (length s)"
proof (induction s arbitrary: i)
  case Nil
  then show ?case by (simp split: if_splits)
next
  case (Cons c cs)
  show ?case
  proof (cases "startswith (c # cs) sub")
    case True
    then show ?thesis using startswith_length [OF True] by simp
  next
    case False
    with Cons.prems have "0 \<le> find_at cs sub (Suc i)" by simp
    from Cons.IH [OF this] False show ?thesis by simp
  qed
qed

lemma find_at_contains: "0 \<le> find_at s sub i \<Longrightarrow> contains s sub"
  by (induction s arbitrary: i) (auto split: if_splits)

lemma str_find_contains: "0 \<le> str_find s sub start \<Longrightarrow> contains s sub"
  unfolding str_find_def
  by (auto split: if_splits dest!: find_at_contains contains_drop)

lemma str_find_bounds:
  "0 \<le> str_find s sub start \<Longrightarrow>
     int start \<le> str_find s sub start \<and> str_find s sub start + int (length sub) \<le> int (length s)"
  unfolding str_find_def
  by (auto split: if_splits dest!: find_at_bounds)

lemma length_replace1:
  "contains s old \<Longrightarrow> old \<noteq> [] \<Longrightarrow> length (replace1 s old) + length old = length s"
proof (induction s)
  case Nil
  then show ?case by simp
next
  case (Cons c cs)
  show ?case
  proof (cases "startswith (c # cs) old")
    case True
    from startswith_length [OF True] Cons.prems True show ?thesis by simp
  next
    case False
    with Cons.prems have "contains cs old" by simp
    from Cons.IH [OF this Cons.prems(2)] False show ?thesis by simp
  qed
qed

lemma while_body_Again:
  assumes "while_body t e s = Again s'"
  shows "contains (fst s) e \<and> snd s' = snd s
         \<and> fst s' = replace1 (fst s) (substr (fst s) (nat (str_find (fst s) t 0))
                        (nat (str_find (fst s) e (nat (str_find (fst s) t 0)) + int (length e))))
         \<and> 0 < str_find (fst s) e (nat (str_find (fst s) t 0))"
proof -
  let ?epos = "str_find (fst s) e (nat (str_find (fst s) t 0))"
  from assms have pos: "0 < ?epos"
    by (auto simp: while_body_def Let_def split: if_splits)
  then have c: "contains (fst s) e"
    by (intro str_find_contains [of _ _ "nat (str_find (fst s) t 0)"]) simp
  with assms pos show ?thesis
    by (auto simp: while_body_def Let_def split: if_splits)
qed

lemma while_body_shorter:
  assumes "while_body t e s = Again s'" and "e \<noteq> []"
  shows "length (fst s') < length (fst s)"
proof -
  define l where "l = fst s"
  define spos where "spos = nat (str_find l t 0)"
  define epos where "epos = str_find l e spos"
  define sl where "sl = substr l spos (nat (epos + int (length e)))"
  from while_body_Again [OF assms(1)]
  have eq: "fst s' = replace1 l sl" and pos: "0 < epos"
    by (simp_all add: l_def spos_def epos_def sl_def)
  from pos have "0 \<le> str_find l e spos" by (simp add: epos_def)
  from str_find_bounds [OF this]
  have b: "int spos \<le> epos" "epos + int (length e) \<le> int (length l)"
    by (simp_all add: epos_def)
  obtain k where k: "epos = int k" using pos by (metis zero_less_imp_eq_int)
  define n where "n = length e"
  from assms(2) have n: "0 < n" by (simp add: n_def)
  from b k have b': "spos \<le> k" "k + n \<le> length l" by (simp_all add: n_def)
  have sl': "sl = take (k + n - spos) (drop spos l)"
    by (simp add: sl_def substr_def k nat_add_distrib n_def)
  from b' have "length sl = k + n - spos" by (simp add: sl')
  moreover from b' n have "0 < k + n - spos" by arith
  ultimately have "0 < length sl" by simp
  then have ne: "sl \<noteq> []" by auto
  have "contains l sl" unfolding sl_def by (rule contains_slice)
  from length_replace1 [OF this ne] have "length (replace1 l sl) + length sl = length l" .
  with ne have "length (replace1 l sl) < length l" by (cases sl) simp_all
  then show ?thesis by (simp add: eq l_def)
qed

section \<open>The block-comment loop\<close>

lemma replace1_Nil [simp]: "replace1 s [] = s"
  by (induction s) simp_all

text \<open>
  A pass of the loop body that goes round again either shortens the line or leaves the
  line and the flag as they were; in the second case the source repeats the same pass
  for ever, which is what \<open>None\<close> in \<open>bcomm_while\<close> stands for.
\<close>

lemma while_body_same:
  assumes "while_body t e s = Again s'" and "\<not> length (fst s') < length (fst s)"
  shows "s' = s"
proof -
  define sl where "sl = substr (fst s) (nat (str_find (fst s) t 0))
                        (nat (str_find (fst s) e (nat (str_find (fst s) t 0)) + int (length e)))"
  from while_body_Again [OF assms(1)]
  have eq: "fst s' = replace1 (fst s) sl" and sn: "snd s' = snd s"
    by (simp_all add: sl_def)
  have "sl = []"
  proof (rule ccontr)
    assume ne: "sl \<noteq> []"
    have "contains (fst s) sl" unfolding sl_def by (rule contains_slice)
    from length_replace1 [OF this ne] ne have "length (replace1 (fst s) sl) < length (fst s)"
      by (cases sl) simp_all
    with assms(2) eq show False by simp
  qed
  with eq have "fst s' = fst s" by simp
  with sn show ?thesis by (simp add: prod_eq_iff)
qed

lemma bcomm_while_inblock: "bcomm_while t e s = Some s' \<Longrightarrow> snd s' = snd s"
proof (induction t e s rule: bcomm_while.induct)
  case (1 token eblock s)
  show ?case
  proof (cases "contains (fst s) token")
    case False
    with "1.prems" show ?thesis by simp
  next
    case True
    show ?thesis
    proof (cases "while_body token eblock s")
      case (Break x)
      have "x = s" using Break by (auto simp: while_body_def Let_def split: if_splits)
      with "1.prems" True Break show ?thesis by simp
    next
      case (Again x)
      with "1.prems" True have lt: "length (fst x) < length (fst s)"
        by (auto split: if_splits)
      with "1.prems" True Again have "bcomm_while token eblock x = Some s'" by simp
      from "1.IH" [OF True Again lt this] while_body_Again [OF Again] show ?thesis by simp
    qed
  qed
qed

lemma bcomm_while_returns: "e \<noteq> [] \<Longrightarrow> \<exists>s'. bcomm_while t e s = Some s'"
proof (induction t e s rule: bcomm_while.induct)
  case (1 token eblock s)
  show ?case
  proof (cases "contains (fst s) token")
    case False
    then show ?thesis by simp
  next
    case True
    show ?thesis
    proof (cases "while_body token eblock s")
      case (Break x)
      with True show ?thesis by simp
    next
      case (Again x)
      from while_body_shorter [OF Again "1.prems"] have lt: "length (fst x) < length (fst s)" .
      from "1.IH" [OF True Again lt "1.prems"] True Again lt show ?thesis by simp
    qed
  qed
qed

lemma bcomm_for_flags:
  "bcomm_for ps sl = Returns sl' \<Longrightarrow> same_flags (fst sl) (fst sl')"
proof (induction ps arbitrary: sl)
  case Nil
  then show ?case by (simp add: same_flags_def)
next
  case (Cons p ps)
  obtain token eblock where p: "p = (token, eblock)" by (cases p)
  from Cons.prems p obtain s' where
    w: "bcomm_while token eblock (snd sl, inblock (fst sl)) = Some s'"
    and r: "bcomm_for ps ((fst sl)\<lparr>strblock := Some token, endblock := Some eblock,
                                 inblock := snd s'\<rparr>, fst s') = Returns sl'"
    by (auto split: option.splits)
  from bcomm_while_inblock [OF w] have "snd s' = inblock (fst sl)" by simp
  with Cons.IH [OF r] show ?case by (simp add: same_flags_def)
qed

lemma bcomm_for_not_raises: "bcomm_for ps sl \<noteq> Raises err"
proof (induction ps arbitrary: sl)
  case Nil
  show ?case by simp
next
  case (Cons p ps)
  then show ?case by (cases p) (simp split: option.splits)
qed

lemma bcomm_for_returns:
  "list_all (\<lambda>p. snd p \<noteq> []) ps \<Longrightarrow> \<exists>sl'. bcomm_for ps sl = Returns sl'"
proof (induction ps arbitrary: sl)
  case Nil
  show ?case by simp
next
  case (Cons p ps)
  obtain token eblock where p: "p = (token, eblock)" by (cases p)
  with Cons.prems have ne: "eblock \<noteq> []" and rest: "list_all (\<lambda>p. snd p \<noteq> []) ps" by simp_all
  from bcomm_while_returns [OF ne] obtain s' where
    "bcomm_while token eblock (snd sl, inblock (fst sl)) = Some s'" by blast
  with Cons.IH [OF rest] p show ?case by simp
qed

section \<open>One line, and all lines, of a file\<close>

lemma classify_step:
  assumes "classify ro st f line = Returns sf'"
  shows "(snd sf' = f\<lparr>comments := comments f + 1\<rparr> \<or> snd sf' = f\<lparr>code := code f + 1\<rparr>)
         \<and> inblock (fst sf') = inblock st \<and> sha_fed (fst sf') = sha_fed st"
  using assms by (auto simp: classify_def split: if_splits option.splits)

lemma inblock_line_flags:
  "inblock_line st line = Returns sl \<Longrightarrow> sha_fed (fst sl) = sha_fed st \<and> (inblock (fst sl) \<longrightarrow> inblock st)"
  by (auto simp: inblock_line_def split: option.splits if_splits)

lemma scan_line_step:
  assumes "scan_line ro sf l = Returns sf'"
  shows "one_counter_step (snd sf) (snd sf')
         \<and> (\<exists>bs. encode_utf8 l = Some bs \<and> sha_fed (fst sf') = sha_fed (fst sf) @ bs)
         \<and> (inblock (fst sf') \<longrightarrow> inblock (fst sf))"
proof -
  from assms obtain bs where bs: "encode_utf8 l = Some bs"
    by (auto simp: scan_line_def split: option.splits)
  define st where "st = (fst sf)\<lparr>sha_fed := sha_fed (fst sf) @ bs\<rparr>"
  define f where "f = (snd sf)\<lparr>lines := lines (snd sf) + 1\<rparr>"
  define line where "line = strip l"
  consider (blank) "line = []"
    | (ended) "line \<noteq> []" "endcode_flag st"
    | (normal) "line \<noteq> []" "\<not> endcode_flag st" "\<not> inblock st"
    | (block) "line \<noteq> []" "\<not> endcode_flag st" "inblock st"
    by blast
  then show ?thesis
  proof cases
    case blank
    with assms bs have "sf' = (st, f\<lparr>blanks := blanks f + 1\<rparr>)"
      by (simp add: scan_line_def Let_def st_def f_def line_def)
    then show ?thesis by (simp add: one_counter_step_def st_def f_def bs)
  next
    case ended
    with assms bs have "sf' = (st, f\<lparr>comments := comments f + 1\<rparr>)"
      by (simp add: scan_line_def Let_def st_def f_def line_def)
    then show ?thesis by (simp add: one_counter_step_def st_def f_def bs)
  next
    case normal
    with assms bs obtain r sl where r: "ro = Some r"
      and b: "bcomm_for (bcomm r) (st, line) = Returns sl"
      and c: "classify ro (fst sl) f (snd sl) = Returns sf'"
      by (auto simp: scan_line_def Let_def st_def f_def line_def split: option.splits res.splits)
    from bcomm_for_flags [OF b] have "same_flags st (fst sl)" by simp
    with classify_step [OF c] normal show ?thesis
      by (auto simp: one_counter_step_def same_flags_def st_def f_def bs)
  next
    case block
    with assms bs obtain sl where b: "inblock_line st line = Returns sl"
      and c: "classify ro (fst sl) f (snd sl) = Returns sf'"
      by (auto simp: scan_line_def Let_def st_def f_def line_def split: option.splits res.splits)
    from inblock_line_flags [OF b] classify_step [OF c] block show ?thesis
      by (auto simp: one_counter_step_def st_def f_def bs)
  qed
qed

lemma one_counter_step_sum:
  "one_counter_step f f' \<Longrightarrow>
     lines f' = lines f + 1
     \<and> code f' + comments f' + blanks f' = code f + comments f + blanks f + 1"
  by (auto simp: one_counter_step_def)

lemma one_counter_step_same: "one_counter_step f f' \<Longrightarrow> same_file f f'"
  by (auto simp: one_counter_step_def same_file_def)

lemma encode_utf8_append:
  "encode_utf8 (a @ b) =
     (case encode_utf8 a of
        None \<Rightarrow> None
      | Some x \<Rightarrow> (case encode_utf8 b of None \<Rightarrow> None | Some y \<Rightarrow> Some (x @ y)))"
  by (induction a) (auto split: option.splits)

lemma scan_lines_result:
  assumes "scan_lines ro sf ls = Returns sf'"
  shows "lines (snd sf') = lines (snd sf) + int (length ls)
         \<and> code (snd sf') + comments (snd sf') + blanks (snd sf')
             = code (snd sf) + comments (snd sf) + blanks (snd sf) + int (length ls)
         \<and> same_file (snd sf) (snd sf')
         \<and> (\<exists>bs. encode_utf8 (concat ls) = Some bs \<and> sha_fed (fst sf') = sha_fed (fst sf) @ bs)
         \<and> (inblock (fst sf') \<longrightarrow> inblock (fst sf))"
  using assms
proof (induction ls arbitrary: sf)
  case Nil
  then show ?case by (simp add: same_file_def)
next
  case (Cons l ls)
  from Cons.prems obtain sf1 where s1: "scan_line ro sf l = Returns sf1"
    and s2: "scan_lines ro sf1 ls = Returns sf'"
    by (auto split: res.splits)
  from scan_line_step [OF s1] obtain bs where
    st: "one_counter_step (snd sf) (snd sf1)" and bs: "encode_utf8 l = Some bs"
    and fed: "sha_fed (fst sf1) = sha_fed (fst sf) @ bs"
    and ib: "inblock (fst sf1) \<longrightarrow> inblock (fst sf)" by blast
  from Cons.IH [OF s2] obtain cs where
    ih: "lines (snd sf') = lines (snd sf1) + int (length ls)"
        "code (snd sf') + comments (snd sf') + blanks (snd sf')
             = code (snd sf1) + comments (snd sf1) + blanks (snd sf1) + int (length ls)"
        "same_file (snd sf1) (snd sf')"
        "inblock (fst sf') \<longrightarrow> inblock (fst sf1)"
    and cs: "encode_utf8 (concat ls) = Some cs" "sha_fed (fst sf') = sha_fed (fst sf1) @ cs"
    by blast
  from one_counter_step_sum [OF st] one_counter_step_same [OF st] ih cs bs fed ib
  show ?case by (simp add: encode_utf8_append same_file_def)
qed

section \<open>The decoder yields text that can be encoded again\<close>

lemma encode_cp_scalar: "encode_cp c \<noteq> None \<longleftrightarrow> scalar c"
  by (simp add: encode_cp_def scalar_def) arith

lemma encode_utf8_scalar: "encode_utf8 l \<noteq> None \<longleftrightarrow> list_all scalar l"
proof (induction l)
  case Nil
  show ?case by simp
next
  case (Cons c cs)
  from encode_cp_scalar [of c] Cons.IH show ?case
    by (auto split: option.splits)
qed

lemma scalar2: "n0 < 0xE0 \<Longrightarrow> c1 \<le> 63 \<Longrightarrow> scalar ((n0 - 0xC0) * 64 + c1)"
  unfolding scalar_def by linarith

lemma scalar3:
  "n0 < 0xF0 \<Longrightarrow> c1 \<le> 63 \<Longrightarrow> c2 \<le> 63 \<Longrightarrow> (n0 = 0xED \<longrightarrow> c1 \<le> 31)
     \<Longrightarrow> scalar ((n0 - 0xE0) * 4096 + c1 * 64 + c2)"
proof -
  assume a: "n0 < 0xF0" "c1 \<le> 63" "c2 \<le> 63" "n0 = 0xED \<longrightarrow> c1 \<le> 31"
  consider "n0 < 0xED" | "n0 = 0xED" | "0xEE \<le> n0" by linarith
  then show ?thesis
  proof cases
    case 1
    with a show ?thesis unfolding scalar_def by linarith
  next
    case 2
    with a show ?thesis unfolding scalar_def by simp
  next
    case 3
    with a show ?thesis unfolding scalar_def by linarith
  qed
qed

lemma scalar4:
  "0xF0 \<le> n0 \<Longrightarrow> n0 < 0xF5 \<Longrightarrow> c1 \<le> 63 \<Longrightarrow> c2 \<le> 63 \<Longrightarrow> c3 \<le> 63
     \<Longrightarrow> (n0 = 0xF4 \<longrightarrow> c1 \<le> 15) \<Longrightarrow> (n0 = 0xF0 \<longrightarrow> 16 \<le> c1)
     \<Longrightarrow> scalar ((n0 - 0xF0) * 262144 + c1 * 4096 + c2 * 64 + c3)"
proof -
  assume a: "0xF0 \<le> n0" "n0 < 0xF5" "c1 \<le> 63" "c2 \<le> 63" "c3 \<le> 63"
    "n0 = 0xF4 \<longrightarrow> c1 \<le> 15" "n0 = 0xF0 \<longrightarrow> 16 \<le> c1"
  consider "n0 = 0xF0" | "0xF1 \<le> n0" "n0 < 0xF4" | "n0 = 0xF4" using a by linarith
  then show ?thesis
  proof cases
    case 1
    with a show ?thesis unfolding scalar_def by simp
  next
    case 2
    with a show ?thesis unfolding scalar_def by linarith
  next
    case 3
    with a show ?thesis unfolding scalar_def by simp
  qed
qed

lemma cont_le: "in_range lo hi b \<Longrightarrow> hi \<le> 0xBF \<Longrightarrow> cont b \<le> 63"
  unfolding in_range_def cont_def by linarith

lemma cont_le_hi: "in_range lo hi b \<Longrightarrow> cont b \<le> hi - 0x80"
  unfolding in_range_def cont_def by linarith

lemma cont_ge_lo: "in_range lo hi b \<Longrightarrow> lo - 0x80 \<le> cont b"
  unfolding in_range_def cont_def by linarith

text \<open>One step of the decoder: it drops bytes, or gives one scalar value, and goes on
  with a shorter input.\<close>

lemma decode_step:
  "\<exists>r. length r \<le> length bs
       \<and> (decode_utf8_ignore (b0 # bs) = decode_utf8_ignore r
          \<or> (\<exists>c. scalar c \<and> decode_utf8_ignore (b0 # bs) = c # decode_utf8_ignore r))"
proof -
  define n0 where "n0 = unat b0"
  have nil: "decode_utf8_ignore [] = decode_utf8_ignore []" by simp
  consider (a) "n0 < 0x80" | (b) "0x80 \<le> n0" "n0 < 0xC2" | (c) "0xC2 \<le> n0" "n0 < 0xE0"
    | (d) "0xE0 \<le> n0" "n0 < 0xF0" | (e) "0xF0 \<le> n0" "n0 < 0xF5" | (f) "0xF5 \<le> n0"
    by linarith
  then show ?thesis
  proof cases
    case a
    then have "scalar n0" by (simp add: scalar_def)
    with a have "scalar n0 \<and> decode_utf8_ignore (b0 # bs) = n0 # decode_utf8_ignore bs"
      by (simp add: n0_def)
    then show ?thesis by blast
  next
    case b
    then have "decode_utf8_ignore (b0 # bs) = decode_utf8_ignore bs"
      by (simp add: n0_def)
    then show ?thesis by blast
  next
    case f
    then have "decode_utf8_ignore (b0 # bs) = decode_utf8_ignore bs"
      by (simp add: n0_def)
    then show ?thesis by blast
  next
    case c
    show ?thesis
    proof (cases bs)
      case Nil
      with c have "decode_utf8_ignore (b0 # bs) = decode_utf8_ignore []" by (simp add: n0_def)
      with Nil show ?thesis by auto
    next
      case (Cons b1 r1)
      show ?thesis
      proof (cases "in_range 0x80 0xBF b1")
        case False
        with c Cons have "decode_utf8_ignore (b0 # bs) = decode_utf8_ignore bs"
          by (simp add: n0_def)
        then show ?thesis by blast
      next
        case True
        from scalar2 [OF c(2) cont_le [OF True]]
        have "scalar ((n0 - 0xC0) * 64 + cont b1)" by simp
        moreover from c Cons True
        have "decode_utf8_ignore (b0 # bs) = ((n0 - 0xC0) * 64 + cont b1) # decode_utf8_ignore r1"
          by (simp add: n0_def)
        moreover have "length r1 \<le> length bs" by (simp add: Cons)
        ultimately show ?thesis by blast
      qed
    qed
  next
    case d
    define lo :: nat where "lo = (if n0 = 0xE0 then 0xA0 else 0x80)"
    define hi :: nat where "hi = (if n0 = 0xED then 0x9F else 0xBF)"
    show ?thesis
    proof (cases bs)
      case Nil
      with d have "decode_utf8_ignore (b0 # bs) = decode_utf8_ignore []" by (simp add: n0_def)
      with Nil show ?thesis by auto
    next
      case b1: (Cons b1 r1)
      show ?thesis
      proof (cases "in_range lo hi b1")
        case False
        with d b1 have "decode_utf8_ignore (b0 # bs) = decode_utf8_ignore bs"
          by (simp add: n0_def lo_def hi_def)
        then show ?thesis by blast
      next
        case r: True
        show ?thesis
        proof (cases r1)
          case Nil
          with d b1 r have "decode_utf8_ignore (b0 # bs) = decode_utf8_ignore []"
            by (simp add: n0_def lo_def hi_def)
          then show ?thesis by (metis le0 list.size(3))
        next
          case b2: (Cons b2 r2)
          show ?thesis
          proof (cases "in_range 0x80 0xBF b2")
            case False
            with d b1 b2 r have "decode_utf8_ignore (b0 # bs) = decode_utf8_ignore r1"
              by (simp add: n0_def lo_def hi_def)
            moreover have "length r1 \<le> length bs" by (simp add: b1)
            ultimately show ?thesis by blast
          next
            case True
            from cont_le_hi [OF r] have "cont b1 \<le> 63" "n0 = 0xED \<longrightarrow> cont b1 \<le> 31"
              by (simp_all add: hi_def split: if_splits)
            from scalar3 [OF d(2) this(1) cont_le [OF True] this(2)]
            have "scalar ((n0 - 0xE0) * 4096 + cont b1 * 64 + cont b2)" by simp
            moreover from d b1 b2 r True
            have "decode_utf8_ignore (b0 # bs)
                    = ((n0 - 0xE0) * 4096 + cont b1 * 64 + cont b2) # decode_utf8_ignore r2"
              by (simp add: n0_def lo_def hi_def)
            moreover have "length r2 \<le> length bs" by (simp add: b1 b2)
            ultimately show ?thesis by blast
          qed
        qed
      qed
    qed
  next
    case e
    define lo :: nat where "lo = (if n0 = 0xF0 then 0x90 else 0x80)"
    define hi :: nat where "hi = (if n0 = 0xF4 then 0x8F else 0xBF)"
    show ?thesis
    proof (cases bs)
      case Nil
      with e have "decode_utf8_ignore (b0 # bs) = decode_utf8_ignore []" by (simp add: n0_def)
      with Nil show ?thesis by auto
    next
      case b1: (Cons b1 r1)
      show ?thesis
      proof (cases "in_range lo hi b1")
        case False
        with e b1 have "decode_utf8_ignore (b0 # bs) = decode_utf8_ignore bs"
          by (simp add: n0_def lo_def hi_def)
        then show ?thesis by blast
      next
        case r: True
        show ?thesis
        proof (cases r1)
          case Nil
          with e b1 r have "decode_utf8_ignore (b0 # bs) = decode_utf8_ignore []"
            by (simp add: n0_def lo_def hi_def)
          then show ?thesis by (metis le0 list.size(3))
        next
          case b2: (Cons b2 r2)
          show ?thesis
          proof (cases "in_range 0x80 0xBF b2")
            case False
            with e b1 b2 r have "decode_utf8_ignore (b0 # bs) = decode_utf8_ignore r1"
              by (simp add: n0_def lo_def hi_def)
            moreover have "length r1 \<le> length bs" by (simp add: b1)
            ultimately show ?thesis by blast
          next
            case t2: True
            show ?thesis
            proof (cases r2)
              case Nil
              with e b1 b2 r t2 have "decode_utf8_ignore (b0 # bs) = decode_utf8_ignore []"
                by (simp add: n0_def lo_def hi_def)
              then show ?thesis by (metis le0 list.size(3))
            next
              case b3: (Cons b3 r3)
              show ?thesis
              proof (cases "in_range 0x80 0xBF b3")
                case False
                with e b1 b2 b3 r t2 have "decode_utf8_ignore (b0 # bs) = decode_utf8_ignore r2"
                  by (simp add: n0_def lo_def hi_def)
                moreover have "length r2 \<le> length bs" by (simp add: b1 b2)
                ultimately show ?thesis by blast
              next
                case t3: True
                from cont_le_hi [OF r] cont_ge_lo [OF r]
                have c1: "cont b1 \<le> 63" "n0 = 0xF4 \<longrightarrow> cont b1 \<le> 15" "n0 = 0xF0 \<longrightarrow> 16 \<le> cont b1"
                  by (simp_all add: hi_def lo_def split: if_splits)
                from scalar4 [OF e(1) e(2) c1(1) cont_le [OF t2] cont_le [OF t3] c1(2) c1(3)]
                have "scalar ((n0 - 0xF0) * 262144 + cont b1 * 4096 + cont b2 * 64 + cont b3)"
                  by simp
                moreover from e b1 b2 b3 r t2 t3
                have "decode_utf8_ignore (b0 # bs)
                        = ((n0 - 0xF0) * 262144 + cont b1 * 4096 + cont b2 * 64 + cont b3)
                            # decode_utf8_ignore r3"
                  by (simp add: n0_def lo_def hi_def)
                moreover have "length r3 \<le> length bs" by (simp add: b1 b2 b3)
                ultimately show ?thesis by blast
              qed
            qed
          qed
        qed
      qed
    qed
  qed
qed

lemma decode_scalar: "list_all scalar (decode_utf8_ignore bs)"
proof (induction "length bs" arbitrary: bs rule: less_induct)
  case less
  show ?case
  proof (cases bs)
    case Nil
    then show ?thesis by simp
  next
    case (Cons b0 r0)
    from decode_step [of r0 b0] obtain r where
      len: "length r \<le> length r0"
      and alt: "decode_utf8_ignore (b0 # r0) = decode_utf8_ignore r
                \<or> (\<exists>c. scalar c \<and> decode_utf8_ignore (b0 # r0) = c # decode_utf8_ignore r)"
      by blast
    from len Cons have "length r < length bs" by simp
    then have "list_all scalar (decode_utf8_ignore r)" by (rule less)
    with alt Cons show ?thesis by auto
  qed
qed

section \<open>Every line of a file in the registry is classified\<close>

lemma translate_newlines_scalar: "list_all scalar t \<Longrightarrow> list_all scalar (translate_newlines t)"
  by (induction t rule: translate_newlines.induct) (auto simp: scalar_def)

lemma readlines_concat: "concat (readlines t) = t"
  by (induction t) (auto split: list.splits)

lemma file_text_scalar: "list_all scalar (file_text raw)"
  unfolding file_text_def by (rule translate_newlines_scalar) (rule decode_scalar)

lemma file_lines_concat: "concat (file_lines raw) = file_text raw"
  by (simp add: file_lines_def readlines_concat)

lemma file_lines_scalar: "l \<in> set (file_lines raw) \<Longrightarrow> list_all scalar l"
proof -
  assume "l \<in> set (file_lines raw)"
  then have "set l \<subseteq> set (concat (file_lines raw))" by auto
  with file_text_scalar [of raw] show ?thesis
    by (auto simp: file_lines_concat list_all_iff)
qed

lemma scan_line_returns:
  assumes "list_all scalar l" and "ro = Some r" and "list_all (\<lambda>p. snd p \<noteq> []) (bcomm r)"
    and "\<not> inblock (fst sf)"
  shows "\<exists>sf'. scan_line ro sf l = Returns sf'"
proof -
  from assms(1) obtain bs where bs: "encode_utf8 l = Some bs"
    using encode_utf8_scalar [of l] by auto
  define st where "st = (fst sf)\<lparr>sha_fed := sha_fed (fst sf) @ bs\<rparr>"
  from bcomm_for_returns [OF assms(3)] obtain sl where
    sl: "bcomm_for (bcomm r) (st, strip l) = Returns sl" by blast
  have "\<exists>x. classify (Some r) (fst sl) f (snd sl) = Returns x" for f
    by (simp add: classify_def)
  with bs sl assms(2,4) show ?thesis
    by (simp add: scan_line_def Let_def st_def)
qed

lemma scan_lines_returns:
  assumes "\<forall>l\<in>set ls. list_all scalar l" and "ro = Some r"
    and "list_all (\<lambda>p. snd p \<noteq> []) (bcomm r)" and "\<not> inblock (fst sf)"
  shows "\<exists>sf'. scan_lines ro sf ls = Returns sf'"
  using assms(1,4)
proof (induction ls arbitrary: sf)
  case Nil
  show ?case by simp
next
  case (Cons l ls)
  from Cons.prems have "list_all scalar l" by simp
  from scan_line_returns [OF this assms(2,3) Cons.prems(2)] obtain sf1 where
    s1: "scan_line ro sf l = Returns sf1" by blast
  from scan_line_step [OF s1] Cons.prems(2) have "\<not> inblock (fst sf1)" by blast
  with Cons.IH [of sf1] Cons.prems(1) s1 show ?case by simp
qed

text \<open>A language that the loop finds is a key of the registry.\<close>

lemma resolve_in: "resolve lgs ex = Some l \<Longrightarrow> \<exists>r. (l, r) \<in> set lgs \<and> ex \<in> set (ext r)"
  by (induction lgs ex rule: resolve.induct) (auto split: if_splits)

lemma resolve_map_of:
  "distinct (map fst lgs) \<Longrightarrow> resolve lgs ex = Some l \<Longrightarrow> \<exists>r. map_of lgs l = Some r \<and> (l, r) \<in> set lgs"
  by (auto dest!: resolve_in)

section \<open>Properties of \<open>scanfile\<close>\<close>

lemma registry_ok_langs: "registry_ok langs"
  by (simp add: registry_ok_def langs_def clike_def u_def)

lemma scanfile_skipped:
  "fsize f = 0 \<or> (resolve lgs (extension f) = None \<and> lang f = None) \<Longrightarrow> scanfile lgs e f = Returns f"
  by (auto simp: scanfile_def)

lemma scanfile_unfold:
  assumes "fsize f \<noteq> 0" and "resolve lgs (extension f) = Some l"
    and "os_read e (os_path_join (path f) (name f)) = Some raw"
  shows "scanfile lgs e f =
           (case scan_lines (map_of lgs l) (init_state, f\<lparr>lang := Some l\<rparr>) (file_lines raw) of
              Returns sf \<Rightarrow> Returns ((snd sf)\<lparr>sha256 := Some (hashlib_sha256 (sha_fed (fst sf)))\<rparr>)
            | Raises err \<Rightarrow> Raises err
            | Diverges \<Rightarrow> Diverges)"
  using assms by (simp add: scanfile_def)

lemma scanfile_scanned:
  assumes ok: "registry_ok lgs" and sz: "fsize f \<noteq> 0"
    and rs: "resolve lgs (extension f) = Some l"
    and rd: "os_read e (os_path_join (path f) (name f)) = Some raw"
  shows "\<exists>f' bs. scanfile lgs e f = Returns f' \<and> lang f' = Some l
           \<and> lines f' = lines f + int (length (file_lines raw))
           \<and> code f' + comments f' + blanks f'
               = code f + comments f + blanks f + int (length (file_lines raw))
           \<and> encode_utf8 (file_text raw) = Some bs \<and> sha256 f' = Some (hashlib_sha256 bs)
           \<and> path f' = path f \<and> name f' = name f \<and> extension f' = extension f
           \<and> fsize f' = fsize f \<and> shortpath f' = shortpath f \<and> shortname f' = shortname f"
proof -
  from ok rs obtain r where r: "map_of lgs l = Some r" "(l, r) \<in> set lgs"
    using resolve_map_of [of lgs "extension f" l] by (auto simp: registry_ok_def)
  with ok have ne: "list_all (\<lambda>p. snd p \<noteq> []) (bcomm r)"
    by (auto simp: registry_ok_def list_all_iff)
  have "\<forall>x\<in>set (file_lines raw). list_all scalar x"
    by (simp add: file_lines_scalar)
  from scan_lines_returns [OF this r(1) ne, of "(init_state, f\<lparr>lang := Some l\<rparr>)"]
  obtain sf where sf: "scan_lines (map_of lgs l) (init_state, f\<lparr>lang := Some l\<rparr>) (file_lines raw)
                         = Returns sf"
    by (auto simp: init_state_def)
  from scan_lines_result [OF sf] obtain bs where
    res: "lines (snd sf) = lines f + int (length (file_lines raw))"
      "code (snd sf) + comments (snd sf) + blanks (snd sf)
         = code f + comments f + blanks f + int (length (file_lines raw))"
      "same_file (f\<lparr>lang := Some l\<rparr>) (snd sf)"
    and bs: "encode_utf8 (concat (file_lines raw)) = Some bs" "sha_fed (fst sf) = bs"
    by (auto simp: init_state_def)
  from scanfile_unfold [OF sz rs rd] sf
  have "scanfile lgs e f = Returns ((snd sf)\<lparr>sha256 := Some (hashlib_sha256 (sha_fed (fst sf)))\<rparr>)"
    by simp
  with res bs show ?thesis
    by (simp add: same_file_def file_lines_concat)
qed

lemma scanfile_balanced:
  assumes "scanfile lgs e f = Returns f'" and "balanced f"
  shows "balanced f'"
proof (cases "fsize f = 0")
  case True
  with assms show ?thesis by (simp add: scanfile_def)
next
  case False
  define g where "g = (case resolve lgs (extension f) of None \<Rightarrow> f | Some l \<Rightarrow> f\<lparr>lang := Some l\<rparr>)"
  from assms(2) have bg: "balanced g"
    by (simp add: g_def balanced_def split: option.splits)
  show ?thesis
  proof (cases "lang g")
    case None
    with assms(1) False have "f' = g" by (simp add: scanfile_def g_def Let_def)
    with bg show ?thesis by simp
  next
    case (Some l)
    with assms(1) False obtain raw sf where
      sf: "scan_lines (map_of lgs l) (init_state, g) (file_lines raw) = Returns sf"
      and f': "f' = (snd sf)\<lparr>sha256 := Some (hashlib_sha256 (sha_fed (fst sf)))\<rparr>"
      by (auto simp: scanfile_def g_def Let_def split: option.splits res.splits)
    from scan_lines_result [OF sf] bg f' show ?thesis
      by (simp add: balanced_def)
  qed
qed

section \<open>Properties of the run\<close>

lemma Filename_init_fresh: "Filename_init e a p n = Returns f \<Longrightarrow> fresh f"
  by (auto simp: Filename_init_def fresh_def Let_def split: option.splits)

lemma walk_files_fresh: "walk_files e a r ns = Returns fl \<Longrightarrow> list_all fresh fl"
proof (induction ns arbitrary: fl)
  case Nil
  then show ?case by simp
next
  case (Cons n ns)
  show ?case
  proof (cases "os_isfile e (r @ ''/'' @ n)")
    case False
    with Cons show ?thesis by simp
  next
    case True
    with Cons.prems obtain f fs where
      f: "Filename_init e a r n = Returns f" and fs: "walk_files e a r ns = Returns fs"
      and fl: "fl = f # fs"
      by (auto split: res.splits)
    from Filename_init_fresh [OF f] Cons.IH [OF fs] fl show ?thesis by simp
  qed
qed

lemma walk_fresh:
  "(\<forall>fl. walk_tree e a r t = Returns fl \<longrightarrow> list_all fresh fl)"
  "(\<forall>fl. walk_folders e a r xs = Returns fl \<longrightarrow> list_all fresh fl)"
proof (induction e a r t and e a r xs rule: walk_tree_walk_folders.induct)
  case (1 e argpath root files folders)
  show ?case
  proof (intro allI impI)
    fix fl
    assume "walk_tree e argpath root (DirTree files folders) = Returns fl"
    then obtain fs gs where fs: "walk_files e argpath root files = Returns fs"
      and gs: "walk_folders e argpath root (prune folders) = Returns gs" and fl: "fl = fs @ gs"
      by (auto split: res.splits)
    from "1.IH" [OF fs] gs have "list_all fresh gs" by blast
    with walk_files_fresh [OF fs] fl show "list_all fresh fl" by simp
  qed
next
  case (2 e argpath root)
  show ?case by simp
next
  case (3 e argpath root x xs)
  show ?case
  proof (intro allI impI)
    fix fl
    assume "walk_folders e argpath root (x # xs) = Returns fl"
    then obtain fs gs where
      fs: "walk_tree e argpath (os_path_join root (fst x)) (snd x) = Returns fs"
      and gs: "walk_folders e argpath root xs = Returns gs" and fl: "fl = fs @ gs"
      by (auto split: res.splits)
    from "3.IH"(1) fs have "list_all fresh fs" by blast
    moreover from "3.IH"(2) [OF fs] gs have "list_all fresh gs" by blast
    ultimately show "list_all fresh fl" using fl by simp
  qed
qed

lemma listfiles_fresh: "listfiles e a [] = Returns fl \<Longrightarrow> list_all fresh fl"
proof (cases "os_isdir e (args_path a)")
  case True
  assume "listfiles e a [] = Returns fl"
  with True have "walk_tree e (args_path a) (args_path a) (os_walk e (args_path a)) = Returns fl"
    by (auto simp: listfiles_def walk_def split: res.splits)
  with walk_fresh(1) show ?thesis by blast
next
  case False
  assume "listfiles e a [] = Returns fl"
  with False show ?thesis
    by (auto simp: listfiles_def Let_def split: if_splits res.splits dest: Filename_init_fresh)
qed

lemma fresh_balanced: "fresh f \<Longrightarrow> balanced f"
  by (simp add: fresh_def balanced_def)

lemma scan_all_length:
  "snd (scan_all lgs e fl) = Returns fl' \<Longrightarrow> length fl' = length fl"
  by (induction fl arbitrary: fl') (auto split: res.splits)

lemma scan_all_nth:
  "snd (scan_all lgs e fl) = Returns fl' \<Longrightarrow> i < length fl \<Longrightarrow> scanfile lgs e (fl ! i) = Returns (fl' ! i)"
proof (induction fl arbitrary: fl' i)
  case Nil
  then show ?case by simp
next
  case (Cons f fs)
  from Cons.prems(1) obtain g gs where g: "scanfile lgs e f = Returns g"
    and gs: "snd (scan_all lgs e fs) = Returns gs" and fl': "fl' = g # gs"
    by (auto split: res.splits)
  show ?case
  proof (cases i)
    case 0
    with g fl' show ?thesis by simp
  next
    case (Suc j)
    with Cons.prems(2) have "j < length fs" by simp
    from Cons.IH [OF gs this] Suc fl' show ?thesis by simp
  qed
qed

lemma scan_all_balanced:
  assumes "snd (scan_all lgs e fl) = Returns fl'" and "list_all balanced fl"
  shows "list_all balanced fl'"
  unfolding list_all_length
proof (intro allI impI)
  fix i assume i: "i < length fl'"
  with scan_all_length [OF assms(1)] have i': "i < length fl" by simp
  from assms(2) i' have "balanced (fl ! i)" by (simp add: list_all_length)
  with scan_all_nth [OF assms(1) i'] show "balanced (fl' ! i)" by (rule scanfile_balanced)
qed

lemma set_unique_add:
  "set (map snd (unique_add un fl)) \<subseteq> set (map snd un) \<union> set fl"
proof (induction fl arbitrary: un)
  case Nil
  show ?case by simp
next
  case (Cons f fs)
  define un' where "un' = (if map_of un (sha256 f) = None then un @ [(sha256 f, f)] else un)"
  have "set (map snd un') \<subseteq> set (map snd un) \<union> {f}"
    by (auto simp: un'_def)
  with Cons.IH [of un'] have "set (map snd (unique_add un' fs)) \<subseteq> set (map snd un) \<union> {f} \<union> set fs"
    by blast
  then show ?case by (auto simp: un'_def)
qed

lemma set_remove_duplicates: "set (remove_duplicates fl) \<subseteq> set fl"
  using set_unique_add [of "[]" fl] by (simp add: remove_duplicates_def)

lemma set_dedup_step: "set (dedup_step a fl) \<subseteq> set fl"
  using set_remove_duplicates [of fl] by (simp add: dedup_step_def)

lemma add_totals_balanced:
  "list_all balanced fl \<Longrightarrow> totals_balanced cc \<Longrightarrow> totals_balanced (add_totals cc fl)"
  by (induction fl arbitrary: cc) (auto simp: totals_balanced_def balanced_def)

lemma add_totals_filelist: "filelist (add_totals cc fl) = filelist cc"
  by (induction fl arbitrary: cc) auto

text \<open>Which exceptions each part can raise.\<close>

lemma Filename_init_raises: "Filename_init e a p n = Raises err \<Longrightarrow> err = OSError"
  by (auto simp: Filename_init_def Let_def split: option.splits)

lemma walk_files_raises: "walk_files e a r ns = Raises err \<Longrightarrow> err = OSError"
  by (induction ns) (auto split: if_splits res.splits dest: Filename_init_raises)

lemma walk_raises:
  "walk_tree e a r t = Raises err \<longrightarrow> err = OSError"
  "walk_folders e a r xs = Raises err \<longrightarrow> err = OSError"
proof (induction e a r t and e a r xs rule: walk_tree_walk_folders.induct)
  case (1 e argpath root files folders)
  show ?case
  proof
    assume a: "walk_tree e argpath root (DirTree files folders) = Raises err"
    show "err = OSError"
    proof (cases "walk_files e argpath root files")
      case (Returns fs)
      with a have "walk_folders e argpath root (prune folders) = Raises err"
        by (auto split: res.splits)
      with "1.IH" [OF Returns] show ?thesis by blast
    next
      case (Raises x)
      with a walk_files_raises [OF Raises] show ?thesis by simp
    next
      case Diverges
      with a show ?thesis by simp
    qed
  qed
next
  case (2 e argpath root)
  show ?case by simp
next
  case (3 e argpath root x xs)
  show ?case
  proof
    assume a: "walk_folders e argpath root (x # xs) = Raises err"
    show "err = OSError"
    proof (cases "walk_tree e argpath (os_path_join root (fst x)) (snd x)")
      case (Returns fs)
      with a have "walk_folders e argpath root xs = Raises err"
        by (auto split: res.splits)
      with "3.IH"(2) [OF Returns] show ?thesis by blast
    next
      case (Raises y)
      with a have "y = err" by simp
      with "3.IH"(1) Raises show ?thesis by blast
    next
      case Diverges
      with a show ?thesis by simp
    qed
  qed
qed

lemma listfiles_raises: "listfiles e a fl = Raises err \<Longrightarrow> err = OSError"
proof (cases "os_isdir e (args_path a)")
  case True
  assume "listfiles e a fl = Raises err"
  with True have "walk_tree e (args_path a) (args_path a) (os_walk e (args_path a)) = Raises err"
    by (auto simp: listfiles_def walk_def split: res.splits)
  with walk_raises(1) show ?thesis by blast
next
  case False
  assume "listfiles e a fl = Raises err"
  with False show ?thesis
    by (auto simp: listfiles_def Let_def split: if_splits res.splits dest: Filename_init_raises)
qed

lemma scan_line_raises:
  assumes "scan_line ro sf l = Raises err"
  shows "err \<noteq> AssertionError \<and> err \<noteq> OSError"
proof (cases "encode_utf8 l")
  case None
  with assms show ?thesis by (simp add: scan_line_def)
next
  case (Some bs)
  define st where "st = (fst sf)\<lparr>sha_fed := sha_fed (fst sf) @ bs\<rparr>"
  define f where "f = (snd sf)\<lparr>lines := lines (snd sf) + 1\<rparr>"
  define line where "line = strip l"
  have cls: "classify ro s g ln = Raises x \<Longrightarrow> x = KeyError" for s g ln x
    by (auto simp: classify_def split: if_splits option.splits)
  consider (blank) "line = []"
    | (ended) "line \<noteq> []" "endcode_flag st"
    | (normal) "line \<noteq> []" "\<not> endcode_flag st" "\<not> inblock st"
    | (block) "line \<noteq> []" "\<not> endcode_flag st" "inblock st"
    by blast
  then show ?thesis
  proof cases
    case blank
    with assms Some show ?thesis
      by (simp add: scan_line_def Let_def st_def f_def line_def)
  next
    case ended
    with assms Some show ?thesis
      by (simp add: scan_line_def Let_def st_def f_def line_def)
  next
    case normal
    with assms Some have
      *: "(case (case ro of None \<Rightarrow> Raises KeyError | Some r \<Rightarrow> bcomm_for (bcomm r) (st, line)) of
            Returns sl \<Rightarrow> classify ro (fst sl) f (snd sl)
          | Raises e \<Rightarrow> Raises e
          | Diverges \<Rightarrow> Diverges) = Raises err"
      unfolding st_def f_def line_def by (simp add: scan_line_def Let_def)
    show ?thesis
    proof (cases ro)
      case None
      with * show ?thesis by simp
    next
      case r: (Some r)
      with * bcomm_for_not_raises [of "bcomm r" "(st, line)"] cls show ?thesis
        by (cases "bcomm_for (bcomm r) (st, line)") auto
    qed
  next
    case block
    with assms Some have
      *: "(case inblock_line st line of
            Returns sl \<Rightarrow> classify ro (fst sl) f (snd sl)
          | Raises e \<Rightarrow> Raises e
          | Diverges \<Rightarrow> Diverges) = Raises err"
      unfolding st_def f_def line_def by (simp add: scan_line_def Let_def)
    have "inblock_line st line = Raises x \<Longrightarrow> x = TypeError" for x
      by (auto simp: inblock_line_def split: option.splits if_splits)
    with * cls show ?thesis
      by (cases "inblock_line st line") auto
  qed
qed

lemma scan_lines_raises:
  "scan_lines ro sf ls = Raises err \<Longrightarrow> err \<noteq> AssertionError \<and> err \<noteq> OSError"
proof (induction ls arbitrary: sf)
  case Nil
  then show ?case by simp
next
  case (Cons l ls)
  show ?case
  proof (cases "scan_line ro sf l")
    case (Returns sf1)
    with Cons.prems have "scan_lines ro sf1 ls = Raises err" by simp
    then show ?thesis by (rule Cons.IH)
  next
    case (Raises x)
    with Cons.prems have "x = err" by simp
    with scan_line_raises [OF Raises] show ?thesis by simp
  next
    case Diverges
    with Cons.prems show ?thesis by simp
  qed
qed

lemma scanfile_raises: "scanfile lgs e f = Raises err \<Longrightarrow> err \<noteq> AssertionError"
  by (auto simp: scanfile_def Let_def split: if_splits option.splits res.splits
           dest: scan_lines_raises)

lemma scan_all_raises: "snd (scan_all lgs e fl) = Raises err \<Longrightarrow> err \<noteq> AssertionError"
proof (induction fl)
  case Nil
  then show ?case by simp
next
  case (Cons f fs)
  show ?case
  proof (cases "scanfile lgs e f")
    case (Returns g)
    with Cons.prems have "snd (scan_all lgs e fs) = Raises err"
      by (auto split: res.splits)
    then show ?thesis by (rule Cons.IH)
  next
    case (Raises x)
    with Cons.prems have "x = err" by simp
    with scanfile_raises [OF Raises] show ?thesis by simp
  next
    case Diverges
    with Cons.prems show ?thesis by simp
  qed
qed

lemma counted_balanced:
  assumes "listfiles e a [] = Returns fl" and "snd (scan_all lgs e fl) = Returns fl'"
  shows "totals_balanced (counted a fl') \<and> list_all balanced (filelist (counted a fl'))"
proof -
  from listfiles_fresh [OF assms(1)] have "list_all balanced fl"
    by (auto simp: list_all_iff fresh_balanced)
  from scan_all_balanced [OF assms(2) this] have "list_all balanced fl'" .
  with set_dedup_step [of a fl'] have b: "list_all balanced (dedup_step a fl')"
    by (auto simp: list_all_iff)
  have "totals_balanced (CodeCounter_init\<lparr>filelist := dedup_step a fl'\<rparr>)"
    by (simp add: totals_balanced_def CodeCounter_init_def)
  from add_totals_balanced [OF b this] b show ?thesis
    by (simp add: counted_def add_totals_filelist)
qed

lemma run_scanned:
  assumes "listfiles e a [] = Returns fl" and "\<not> args_output_languages a"
    and "snd (scan_all lgs e fl) = Returns fl'"
  shows "run lgs e a =
           ((if os_isdir e (args_path a) then [EvWalk (args_path a)] else [])
              @ fst (scan_all lgs e fl) @ map EvPrint (report a (counted a fl'))
              @ (if args_time a then [EvPrint (''Runtime: '' @ os_runtime e @ '' seconds'')] else []),
            counted a fl', Returns ())"
proof -
  from counted_balanced [OF assms(1,3)]
  have "tlines (counted a fl') - tcode (counted a fl') - tcomments (counted a fl')
          - tblanks (counted a fl') = 0"
    by (simp add: totals_balanced_def)
  with assms show ?thesis
    by (simp add: run_def Let_def counted_def CodeCounter_init_def)
qed

lemma run_no_assertion_error: "snd (snd (run lgs e a)) \<noteq> Raises AssertionError"
proof (cases "listfiles e a []")
  case (Raises err)
  with listfiles_raises [OF Raises] show ?thesis
    by (simp add: run_def Let_def CodeCounter_init_def)
next
  case Diverges
  then show ?thesis by (simp add: run_def Let_def CodeCounter_init_def)
next
  case (Returns fl)
  show ?thesis
  proof (cases "args_output_languages a")
    case True
    with Returns show ?thesis by (simp add: run_def Let_def CodeCounter_init_def)
  next
    case False
    show ?thesis
    proof (cases "snd (scan_all lgs e fl)")
      case r: (Returns fl')
      from run_scanned [OF Returns False r] show ?thesis by simp
    next
      case r: (Raises err)
      with scan_all_raises [OF r] Returns False show ?thesis
        by (simp add: run_def Let_def CodeCounter_init_def)
    next
      case r: Diverges
      with Returns False show ?thesis by (simp add: run_def Let_def CodeCounter_init_def)
    qed
  qed
qed

lemma run_returns_balanced:
  assumes "snd (snd (run lgs e a)) = Returns ()"
  shows "totals_balanced (fst (snd (run lgs e a)))
         \<and> list_all balanced (filelist (fst (snd (run lgs e a))))"
proof -
  from assms obtain fl where fl: "listfiles e a [] = Returns fl"
    by (cases "listfiles e a []") (simp_all add: run_def Let_def CodeCounter_init_def)
  from assms fl have no: "\<not> args_output_languages a"
    by (auto simp: run_def Let_def CodeCounter_init_def split: if_splits)
  from assms fl no obtain fl' where fl': "snd (scan_all lgs e fl) = Returns fl'"
    by (cases "snd (scan_all lgs e fl)") (simp_all add: run_def Let_def CodeCounter_init_def)
  from run_scanned [OF fl no fl'] counted_balanced [OF fl fl'] show ?thesis by simp
qed

section \<open>Runs on concrete inputs\<close>

lemmas os_defs = flat_env_def os_path_join_def os_path_split_def startswith_def

lemmas name_defs = Filename_init_def splitext_def rfind_char_def substr_def lower_def
  lower_char_def strip_name_def strip_by_def is_space_def Let_def

lemma listfiles_small:
  "listfiles (flat_env [(''a.c'', small_c)]) default_args [] = Returns [small_file]"
  by (simp add: listfiles_def default_args_def walk_def prune_def ignoredirs_def os_defs name_defs
        small_c_def small_file_def ascii_def)

lemma read_small:
  "os_read (flat_env [(''a.c'', small_c)]) (os_path_join (path small_file) (name small_file)) = Some small_c"
  by (simp add: os_defs small_file_def)

lemma resolve_c: "resolve langs ''.c'' = Some ''C''"
  by (simp add: langs_def clike_def)

lemma scan_line_small:
  "scan_line (Some (clike [''.c''])) (init_state, small_file) (u ''int x;\<newline>'')
     = Returns (init_state\<lparr>strblock := Some (u ''/*''), endblock := Some (u ''*/''),
                             sha_fed := ascii ''int x;\<newline>''\<rparr>,
                small_file\<lparr>lines := 1, code := 1\<rparr>)"
  by (simp add: scan_line_def clike_def u_def encode_cp_def strip_def strip_by_def is_space_def
        init_state_def bcomm_while.simps [of "[47, 42]"] classify_def startswith_def
        small_file_def ascii_def Let_def)

lemma file_lines_small:
  "file_lines small_c = [u ''int x;\<newline>'', u ''\<newline>'', u ''// c\<newline>'']"
  by (simp add: small_c_def ascii_def file_lines_def file_text_def u_def)

lemma run_small_returns:
  "snd (snd (run langs (flat_env [(''a.c'', small_c)]) default_args)) = Returns ()"
proof -
  have sz: "fsize small_file \<noteq> 0" by (simp add: small_file_def)
  have rs: "resolve langs (extension small_file) = Some ''C''"
    by (simp add: small_file_def resolve_c)
  from scanfile_scanned [OF registry_ok_langs sz rs read_small]
  obtain f' where "scanfile langs (flat_env [(''a.c'', small_c)]) small_file = Returns f'"
    by blast
  then have sc: "snd (scan_all langs (flat_env [(''a.c'', small_c)]) [small_file]) = Returns [f']"
    by simp
  have no: "\<not> args_output_languages default_args" by (simp add: default_args_def)
  from run_scanned [OF listfiles_small no sc] show ?thesis by simp
qed

lemma scanfile_counts:
  assumes "fsize f \<noteq> 0" and "resolve lgs (extension f) = Some l"
    and "os_read e (os_path_join (path f) (name f)) = Some raw"
  shows "map_res counts (scanfile lgs e f)
           = map_res (\<lambda>sf. counts (snd sf))
               (scan_lines (map_of lgs l) (init_state, f\<lparr>lang := Some l\<rparr>) (file_lines raw))"
  by (simp add: scanfile_unfold [OF assms] counts_def split: res.splits)

lemma remove_duplicates_single: "remove_duplicates [g] = [g]"
  by (simp add: remove_duplicates_def)

lemma run_single_file:
  assumes "listfiles e a [] = Returns [f]" and "\<not> args_output_languages a"
    and "scanfile lgs e f = Returns g"
  shows "filelist (fst (snd (run lgs e a))) = [g] \<and> snd (snd (run lgs e a)) = Returns ()"
proof -
  from assms(3) have "snd (scan_all lgs e [f]) = Returns [g]" by simp
  from run_scanned [OF assms(1,2) this] show ?thesis
    by (simp add: counted_def add_totals_filelist dedup_step_def remove_duplicates_single)
qed

lemma map_res_Returns: "map_res h r = Returns c \<Longrightarrow> \<exists>g. r = Returns g \<and> h g = c"
  by (cases r) simp_all

lemmas scan_defs = scan_line_def encode_cp_def strip_def strip_by_def is_space_def
  init_state_def while_body_def str_find_def classify_def startswith_def substr_def counts_def
  Let_def

lemma file_lines_block:
  "file_lines block_c
     = [u ''int x; /* start\<newline>'', u ''still comment\<newline>'', u ''end */ int y;\<newline>'']"
  by (simp add: block_c_def ascii_def file_lines_def file_text_def u_def)

lemma listfiles_block:
  "listfiles (flat_env [(''a.c'', block_c)]) default_args [] = Returns [top_file ''a.c'' ''.c'' 44]"
  by (simp add: listfiles_def default_args_def walk_def prune_def ignoredirs_def os_defs name_defs
        block_c_def top_file_def ascii_def)

lemma scan_lines_block:
  "map_res (\<lambda>sf. counts (snd sf))
     (scan_lines (map_of langs ''C'') (init_state, (top_file ''a.c'' ''.c'' 44)\<lparr>lang := Some ''C''\<rparr>)
        (file_lines block_c)) = Returns (3, 0, 0, 3)"
  by (simp add: file_lines_block langs_def clike_def u_def top_file_def scan_defs
        bcomm_while.simps [of "[47, 42]"])

lemma file_lines_sentinel:
  "file_lines sentinel_pl
     = [u ''code();\<newline>'', u ''__END__\<newline>'', u ''more(); \<newline>'', u ''\<newline>'']"
  by (simp add: sentinel_pl_def ascii_def file_lines_def file_text_def u_def)

lemma listfiles_sentinel:
  "listfiles (flat_env [(''b.pl'', sentinel_pl)]) default_args [] = Returns [top_file ''b.pl'' ''.pl'' 26]"
  by (simp add: listfiles_def default_args_def walk_def prune_def ignoredirs_def os_defs name_defs
        sentinel_pl_def top_file_def ascii_def)

lemma resolve_pl: "resolve langs ''.pl'' = Some ''Perl''"
  by (simp add: langs_def clike_def)

lemma scan_lines_sentinel:
  "map_res (\<lambda>sf. counts (snd sf))
     (scan_lines (map_of langs ''Perl'')
        (init_state, (top_file ''b.pl'' ''.pl'' 26)\<lparr>lang := Some ''Perl''\<rparr>)
        (file_lines sentinel_pl)) = Returns (2, 1, 1, 4)"
  by (simp add: file_lines_sentinel langs_def clike_def u_def top_file_def scan_defs)

lemma run_sentinel:
  "map counts (filelist (fst (snd (run langs (flat_env [(''b.pl'', sentinel_pl)]) default_args))))
     = [(2, 1, 1, 4)]"
proof -
  have sz: "fsize (top_file ''b.pl'' ''.pl'' 26) \<noteq> 0"
    and rs: "resolve langs (extension (top_file ''b.pl'' ''.pl'' 26)) = Some ''Perl''"
    and rd: "os_read (flat_env [(''b.pl'', sentinel_pl)])
               (os_path_join (path (top_file ''b.pl'' ''.pl'' 26)) (name (top_file ''b.pl'' ''.pl'' 26)))
             = Some sentinel_pl"
    by (simp_all add: top_file_def resolve_pl os_defs)
  from scanfile_counts [OF sz rs rd] scan_lines_sentinel
  have "map_res counts (scanfile langs (flat_env [(''b.pl'', sentinel_pl)]) (top_file ''b.pl'' ''.pl'' 26))
          = Returns (2, 1, 1, 4)" by simp
  from map_res_Returns [OF this] obtain g where
    g: "scanfile langs (flat_env [(''b.pl'', sentinel_pl)]) (top_file ''b.pl'' ''.pl'' 26) = Returns g"
    and c: "counts g = (2, 1, 1, 4)" by blast
  have no: "\<not> args_output_languages default_args" by (simp add: default_args_def)
  from run_single_file [OF listfiles_sentinel no g] c show ?thesis by simp
qed

lemma scan_line_after_sentinel:
  assumes "endcode_flag (fst sf)" and "list_all scalar l"
  shows "\<exists>sf'. scan_line ro sf l = Returns sf' \<and> endcode_flag (fst sf')
           \<and> snd sf' = (if strip l = []
                         then (snd sf)\<lparr>lines := lines (snd sf) + 1, blanks := blanks (snd sf) + 1\<rparr>
                         else (snd sf)\<lparr>lines := lines (snd sf) + 1, comments := comments (snd sf) + 1\<rparr>)"
proof -
  from assms(2) obtain bs where "encode_utf8 l = Some bs"
    using encode_utf8_scalar [of l] by auto
  with assms(1) show ?thesis
    by (simp add: scan_line_def Let_def)
qed

lemma scan_lines_after_sentinel:
  assumes "endcode_flag (fst sf)" and "\<forall>l\<in>set ls. list_all scalar l"
  shows "\<exists>sf'. scan_lines ro sf ls = Returns sf' \<and> endcode_flag (fst sf')
           \<and> code (snd sf') = code (snd sf)
           \<and> comments (snd sf') = comments (snd sf) + int (length (filter (\<lambda>l. strip l \<noteq> []) ls))
           \<and> blanks (snd sf') = blanks (snd sf) + int (length (filter (\<lambda>l. strip l = []) ls))"
  using assms
proof (induction ls arbitrary: sf)
  case Nil
  then show ?case by simp
next
  case (Cons l ls)
  from Cons.prems have "list_all scalar l" by simp
  from scan_line_after_sentinel [OF Cons.prems(1) this, of ro] obtain sf1 where
    s1: "scan_line ro sf l = Returns sf1" and e1: "endcode_flag (fst sf1)"
    and f1: "snd sf1 = (if strip l = []
                         then (snd sf)\<lparr>lines := lines (snd sf) + 1, blanks := blanks (snd sf) + 1\<rparr>
                         else (snd sf)\<lparr>lines := lines (snd sf) + 1, comments := comments (snd sf) + 1\<rparr>)"
    by blast
  from Cons.prems have "\<forall>x\<in>set ls. list_all scalar x" by simp
  from Cons.IH [OF e1 this] obtain sf' where
    "scan_lines ro sf1 ls = Returns sf'" "endcode_flag (fst sf')"
    "code (snd sf') = code (snd sf1)"
    "comments (snd sf') = comments (snd sf1) + int (length (filter (\<lambda>l. strip l \<noteq> []) ls))"
    "blanks (snd sf') = blanks (snd sf1) + int (length (filter (\<lambda>l. strip l = []) ls))"
    by blast
  with s1 f1 show ?case by (cases "strip l = []") simp_all
qed

lemma scanfile_digest:
  assumes "registry_ok lgs" and "fsize f \<noteq> 0" and "resolve lgs (extension f) = Some l"
    and "os_read e (os_path_join (path f) (name f)) = Some raw"
    and "encode_utf8 (file_text raw) = Some bs"
  shows "map_res sha256 (scanfile lgs e f) = Returns (Some (hashlib_sha256 bs))"
  using scanfile_scanned [OF assms(1-4)] assms(5) by auto

lemma scan_lines_small:
  "scan_lines (Some (clike [''.c''])) (init_state, small_file) [u ''int x;\<newline>'']
     = Returns (init_state\<lparr>strblock := Some (u ''/*''), endblock := Some (u ''*/''),
                             sha_fed := ascii ''int x;\<newline>''\<rparr>,
                small_file\<lparr>lines := 1, code := 1\<rparr>)"
  by (simp add: scan_line_small)

lemma listfiles_path: "args_path a = args_path b \<Longrightarrow> listfiles e a fl = listfiles e b fl"
  by (simp add: listfiles_def Let_def)

lemma listfiles_small_output:
  "listfiles (flat_env [(''a.c'', small_c)]) (default_args\<lparr>args_output_languages := True\<rparr>) []
     = Returns [small_file]"
  using listfiles_path [of "default_args\<lparr>args_output_languages := True\<rparr>" default_args]
    listfiles_small by simp

lemma run_output_languages:
  assumes "args_output_languages a"
  shows "run lgs e a =
     (case listfiles e a [] of
        Returns fl \<Rightarrow>
          if os_writable e ''languages.json''
          then ((if os_isdir e (args_path a) then [EvWalk (args_path a)] else [])
                  @ [EvWriteLanguages ''languages.json'' lgs],
                CodeCounter_init\<lparr>filelist := fl\<rparr>,
                Raises (SystemExit ''File languages.json created.''))
          else (if os_isdir e (args_path a) then [EvWalk (args_path a)] else [],
                CodeCounter_init\<lparr>filelist := fl\<rparr>, Raises OSError)
      | Raises err \<Rightarrow>
          (if os_isdir e (args_path a) then [EvWalk (args_path a)] else [], CodeCounter_init,
           Raises err)
      | Diverges \<Rightarrow>
          (if os_isdir e (args_path a) then [EvWalk (args_path a)] else [], CodeCounter_init,
           Diverges))"
  using assms by (simp add: run_def Let_def CodeCounter_init_def split: res.splits)

lemma listfiles_notes:
  "listfiles notes_env (default_args\<lparr>args_bygroup := True\<rparr>) [] = Returns [notes_file]"
  by (simp add: listfiles_def default_args_def walk_def prune_def ignoredirs_def os_defs name_defs
        notes_env_def notes_file_def top_file_def ascii_def)

lemma resolve_foo: "resolve langs ''.foo'' = None"
  by (simp add: langs_def clike_def)

lemma scanfile_notes: "scanfile langs notes_env notes_file = Returns notes_file"
  by (rule scanfile_skipped) (simp add: notes_file_def top_file_def resolve_foo)

lemma counted_notes:
  "counted (default_args\<lparr>args_bygroup := True\<rparr>) [notes_file]
     = CodeCounter_init\<lparr>filelist := [notes_file]\<rparr>"
  by (simp add: counted_def dedup_step_def default_args_def remove_duplicates_single
        CodeCounter_init_def notes_file_def top_file_def)

text \<open>The row that \<open>report_dir\<close> prints for a directory with one file of no lines.\<close>

lemma report_detail_one_file:
  "report_detail [] 1 0 0 0 0
     = ''                                      1         0         0         0         0''"
  by code_simp

section \<open>Properties of \<open>remove_duplicates\<close>\<close>

lemma unique_add_filter:
  assumes "\<forall>x\<in>set un. sha256 (snd x) = fst x"
  shows "filter (\<lambda>f. sha256 f = d) (map snd (unique_add un fl))
           = filter (\<lambda>f. sha256 f = d) (map snd un)
             @ (if d \<in> fst ` set un then [] else take 1 (filter (\<lambda>f. sha256 f = d) fl))"
  using assms
proof (induction fl arbitrary: un)
  case Nil
  show ?case by simp
next
  case (Cons f fs)
  show ?case
  proof (cases "map_of un (sha256 f) = None")
    case True
    then have nk: "sha256 f \<notin> fst ` set un" by (simp add: map_of_eq_None_iff)
    have inv: "\<forall>x\<in>set (un @ [(sha256 f, f)]). sha256 (snd x) = fst x"
      using Cons.prems by auto
    from Cons.IH [OF inv] True nk show ?thesis
      by (cases "d = sha256 f") auto
  next
    case False
    then have k: "sha256 f \<in> fst ` set un" by (simp add: map_of_eq_None_iff)
    from Cons.IH [OF Cons.prems] False k show ?thesis
      by (cases "d = sha256 f") auto
  qed
qed

lemma remove_duplicates_filter:
  "filter (\<lambda>f. sha256 f = d) (remove_duplicates fl) = take 1 (filter (\<lambda>f. sha256 f = d) fl)"
  using unique_add_filter [of "[]" d fl] by (simp add: remove_duplicates_def)

lemma take1_filter_first:
  "i < length fl \<Longrightarrow> P (fl ! i) \<Longrightarrow> (\<forall>k<i. \<not> P (fl ! k)) \<Longrightarrow> take 1 (filter P fl) = [fl ! i]"
proof (induction fl arbitrary: i)
  case Nil
  then show ?case by simp
next
  case (Cons f fs)
  show ?case
  proof (cases i)
    case 0
    with Cons.prems show ?thesis by simp
  next
    case (Suc m)
    with Cons.prems have "\<not> P f" by auto
    moreover from Suc Cons.prems have "m < length fs" "P (fs ! m)" "\<forall>k<m. \<not> P (fs ! k)"
      by auto
    ultimately show ?thesis using Cons.IH [of m] Suc by simp
  qed
qed

lemma remove_duplicates_keeps_first:
  assumes "i < length fl" and "\<forall>k<i. sha256 (fl ! k) \<noteq> sha256 (fl ! i)"
  shows "filter (\<lambda>f. sha256 f = sha256 (fl ! i)) (remove_duplicates fl) = [fl ! i]"
  unfolding remove_duplicates_filter
  by (rule take1_filter_first) (use assms in auto)

lemma remove_duplicates_at_most_one:
  "length (filter (\<lambda>f. sha256 f = d) (remove_duplicates fl)) \<le> 1"
  unfolding remove_duplicates_filter by simp

lemma listfiles_twin:
  "args_path a = ''.'' \<Longrightarrow>
     listfiles twin_env a [] = Returns [top_file ''a.c'' ''.c'' 13, top_file ''b.c'' ''.c'' 13]"
  by (simp add: listfiles_def walk_def prune_def ignoredirs_def os_defs name_defs
        twin_env_def small_c_def top_file_def ascii_def)

lemma scan_lines_twin:
  "scan_lines (map_of langs ''C'') (init_state, (top_file n ''.c'' 13)\<lparr>lang := Some ''C''\<rparr>)
     (file_lines small_c)
   = Returns (init_state\<lparr>strblock := Some (u ''/*''), endblock := Some (u ''*/''),
                          sha_fed := small_c\<rparr>,
              (top_file n ''.c'' 13)\<lparr>lang := Some ''C'', lines := 3, comments := 1, blanks := 1,
                                      code := 1\<rparr>)"
  unfolding file_lines_small
  by (simp add: langs_def clike_def u_def top_file_def scan_defs small_c_def
        ascii_def bcomm_while.simps [of "[47, 42]"])

lemma scanfile_twin:
  assumes "n = ''a.c'' \<or> n = ''b.c''"
  shows "scanfile langs twin_env (top_file n ''.c'' 13) = Returns (scanned_c n)"
proof -
  have sz: "fsize (top_file n ''.c'' 13) \<noteq> 0"
    and rs: "resolve langs (extension (top_file n ''.c'' 13)) = Some ''C''"
    by (simp_all add: top_file_def resolve_c)
  from assms have rd: "os_read twin_env (os_path_join (path (top_file n ''.c'' 13))
                         (name (top_file n ''.c'' 13))) = Some small_c"
    by (auto simp: top_file_def os_defs twin_env_def)
  show ?thesis
    unfolding scanfile_unfold [OF sz rs rd] scan_lines_twin
    by (simp add: scanned_c_def top_file_def)
qed

lemma scan_all_twin:
  "snd (scan_all langs twin_env [top_file ''a.c'' ''.c'' 13, top_file ''b.c'' ''.c'' 13])
     = Returns [scanned_c ''a.c'', scanned_c ''b.c'']"
  by (simp add: scanfile_twin)

lemma Filename_init_sha256: "Filename_init e ap p n = Returns f \<Longrightarrow> sha256 f = None \<and> lang f = None"
  using Filename_init_fresh [of e ap p n f] by (simp add: fresh_def)

lemma Filename_init_notes: "Filename_init notes_env ''.'' ''.'' ''notes.foo'' = Returns notes_file"
  by (simp add: os_defs name_defs notes_env_def notes_file_def top_file_def ascii_def)

lemma resolve_first:
  "resolve lgs x = (case filter (\<lambda>y. x \<in> set (ext (snd y))) lgs of [] \<Rightarrow> None | y # ys \<Rightarrow> Some (fst y))"
  by (induction lgs x rule: resolve.induct) simp_all

lemma resolve_mac: "resolve langs ''.mac'' = Some ''IBM Macro''"
  by (simp add: langs_def clike_def)

lemma extension_MAC: "lower (snd (splitext ''X.MAC'')) = ''.mac''"
  by code_simp

lemma Filename_init_mac:
  "Filename_init mac_env ''.'' ''.'' ''X.MAC'' = Returns (top_file ''X.MAC'' ''.mac'' 2)"
  by (simp add: Filename_init_def extension_MAC Let_def strip_name_def strip_by_def is_space_def
        substr_def os_defs mac_env_def top_file_def ascii_def)

section \<open>The extension of a file name\<close>

lemma of_char_lower:
  "(of_char (lower_char c) :: nat) = (if is_upper c then of_char c + 32 else of_char c)"
proof (cases "is_upper c")
  case True
  then have "(of_char c :: nat) + 32 < 256" by (auto simp: is_upper_def)
  then have "(of_char (char_of ((of_char c :: nat) + 32)) :: nat) = of_char c + 32"
    by simp
  with True show ?thesis by (simp add: lower_char_def is_upper_def Let_def)
next
  case False
  then show ?thesis by (auto simp: lower_char_def is_upper_def Let_def)
qed

lemma lower_char_eq_iff: "lower_char a = lower_char b \<longleftrightarrow>
    (of_char (lower_char a) :: nat) = of_char (lower_char b)"
  by simp

lemma same_letter_lower: "same_letter a b \<Longrightarrow> lower_char a = lower_char b"
  unfolding lower_char_eq_iff of_char_lower
  by (auto simp: same_letter_def is_upper_def)

lemma differ_in_case_lower: "differ_in_case s t \<Longrightarrow> lower s = lower t"
  unfolding differ_in_case_def lower_def
  by (induction rule: list_all2_induct) (simp_all add: same_letter_lower)

lemma lower_char_keeps:
  assumes "\<not> is_upper c" and "(of_char c :: nat) < 97"
  shows "lower_char x = c \<longleftrightarrow> x = c"
proof
  assume "x = c"
  with assms(1) show "lower_char x = c"
    by (auto simp: lower_char_def is_upper_def Let_def)
next
  assume e: "lower_char x = c"
  then have "(of_char (lower_char x) :: nat) = of_char c" by simp
  with assms(2) have "\<not> is_upper x"
    by (auto simp: of_char_lower is_upper_def split: if_splits)
  with e show "x = c" by (auto simp: lower_char_def is_upper_def Let_def)
qed

lemma lower_char_dot [simp]: "lower_char x = CHR ''.'' \<longleftrightarrow> x = CHR ''.''"
  by (rule lower_char_keeps) (simp_all add: is_upper_def)

lemma lower_char_slash [simp]: "lower_char x = CHR ''/'' \<longleftrightarrow> x = CHR ''/''"
  by (rule lower_char_keeps) (simp_all add: is_upper_def)

lemma rfind_char_map:
  assumes "\<And>x. g x = c \<longleftrightarrow> x = c"
  shows "rfind_char (map g s) c = rfind_char s c"
proof -
  have "(\<lambda>x. x \<noteq> c) \<circ> g = (\<lambda>x. x \<noteq> c)" using assms by (auto simp: fun_eq_iff)
  then have "takeWhile (\<lambda>x. x \<noteq> c) (rev (map g s)) = map g (takeWhile (\<lambda>x. x \<noteq> c) (rev s))"
    by (simp add: rev_map takeWhile_map)
  moreover have "c \<in> set (map g s) \<longleftrightarrow> c \<in> set s"
  proof
    assume "c \<in> set (map g s)"
    then obtain x where "x \<in> set s" "g x = c" by auto
    with assms [of x] show "c \<in> set s" by simp
  next
    assume "c \<in> set s"
    moreover from assms [of c] have "g c = c" by simp
    ultimately show "c \<in> set (map g s)" by force
  qed
  ultimately show ?thesis by (simp add: rfind_char_def)
qed

lemma substr_map: "substr (map g s) a b = map g (substr s a b)"
  by (simp add: substr_def take_map drop_map)

lemma splitext_lower: "splitext (lower p) = (lower (fst (splitext p)), lower (snd (splitext p)))"
proof -
  have s: "rfind_char (lower p) (CHR ''/'') = rfind_char p (CHR ''/'')"
    and d: "rfind_char (lower p) (CHR ''.'') = rfind_char p (CHR ''.'')"
    unfolding lower_def by (rule rfind_char_map, simp)+
  have e: "list_ex (\<lambda>x. x \<noteq> CHR ''.'') (map lower_char xs) = list_ex (\<lambda>x. x \<noteq> CHR ''.'') xs" for xs
    by (induction xs) simp_all
  show ?thesis
    unfolding splitext_def s d Let_def
    by (simp add: lower_def substr_map e take_map drop_map)
qed

lemma extension_case_insensitive:
  assumes "differ_in_case n1 n2"
  shows "lower (snd (splitext n1)) = lower (snd (splitext n2))"
proof -
  have "lower (snd (splitext n)) = snd (splitext (lower n))" for n
    by (simp add: splitext_lower)
  with differ_in_case_lower [OF assms] show ?thesis by simp
qed

lemma Filename_init_extension:
  "Filename_init e ap p n = Returns f \<Longrightarrow> extension f = lower (snd (splitext n))"
  by (auto simp: Filename_init_def Let_def split: option.splits)

lemma extension_PY: "lower (snd (splitext ''Main.PY'')) = ''.py''"
  by code_simp

lemma extension_py: "lower (snd (splitext ''main.py'')) = ''.py''"
  by code_simp

lemma Filename_init_PY:
  "Filename_init py_env ''.'' ''.'' ''Main.PY'' = Returns (top_file ''Main.PY'' ''.py'' 2)"
  by (simp add: Filename_init_def extension_PY Let_def strip_name_def strip_by_def is_space_def
        substr_def os_defs py_env_def top_file_def ascii_def)

lemma Filename_init_py:
  "Filename_init py_env ''.'' ''.'' ''main.py'' = Returns (top_file ''main.py'' ''.py'' 2)"
  by (simp add: Filename_init_def extension_py Let_def strip_name_def strip_by_def is_space_def
        substr_def os_defs py_env_def top_file_def ascii_def)

lemma differ_Main_main: "differ_in_case ''Main.PY'' ''main.py''"
  by (simp add: differ_in_case_def same_letter_def is_upper_def)

lemma resolve_py: "resolve langs ''.py'' = Some ''Python''"
  by (simp add: langs_def clike_def)

section \<open>A run on three files with one digest\<close>

lemma listfiles_triple:
  "listfiles triple_env default_args []
     = Returns [top_file ''x.c'' ''.c'' 3, top_file ''a.c'' ''.c'' 2, top_file ''b.c'' ''.c'' 2]"
  by (simp add: listfiles_def default_args_def walk_def prune_def ignoredirs_def os_defs name_defs
        triple_env_def top_file_def)

lemma scanfile_triple:
  assumes "os_read triple_env (os_path_join ''.'' n) = Some raw" and "sz \<noteq> 0"
    and "encode_utf8 (file_text raw) = Some [0x61, 0x0A]"
  shows "\<exists>g. scanfile langs triple_env (top_file n ''.c'' sz) = Returns g \<and> name g = n
           \<and> sha256 g = Some (hashlib_sha256 [0x61, 0x0A])"
proof -
  have sz: "fsize (top_file n ''.c'' sz) \<noteq> 0"
    and rs: "resolve langs (extension (top_file n ''.c'' sz)) = Some ''C''"
    and rd: "os_read triple_env (os_path_join (path (top_file n ''.c'' sz))
               (name (top_file n ''.c'' sz))) = Some raw"
    using assms(1,2) by (simp_all add: top_file_def resolve_c)
  from scanfile_scanned [OF registry_ok_langs sz rs rd] assms(3) show ?thesis
    by (auto simp: top_file_def)
qed

lemma remove_duplicates_three:
  "sha256 g2 = sha256 g1 \<Longrightarrow> sha256 g3 = sha256 g1 \<Longrightarrow> remove_duplicates [g1, g2, g3] = [g1]"
  by (simp add: remove_duplicates_def)

lemma run_triple:
  "map name (filelist (fst (snd (run langs triple_env default_args)))) = [''x.c'']"
proof -
  have t1: "encode_utf8 (file_text [0x61, 0xFF, 0x0A]) = Some [0x61, 0x0A]"
    and t2: "encode_utf8 (file_text [0x61, 0x0A]) = Some [0x61, 0x0A]"
    by (simp_all add: file_text_def encode_cp_def)
  have r1: "os_read triple_env (os_path_join ''.'' ''x.c'') = Some [0x61, 0xFF, 0x0A]"
    and r2: "os_read triple_env (os_path_join ''.'' ''a.c'') = Some [0x61, 0x0A]"
    and r3: "os_read triple_env (os_path_join ''.'' ''b.c'') = Some [0x61, 0x0A]"
    by (simp_all add: triple_env_def os_defs)
  from scanfile_triple [OF r1 _ t1, of 3] obtain g1 where
    g1: "scanfile langs triple_env (top_file ''x.c'' ''.c'' 3) = Returns g1" "name g1 = ''x.c''"
      "sha256 g1 = Some (hashlib_sha256 [0x61, 0x0A])" by auto
  from scanfile_triple [OF r2 _ t2, of 2] obtain g2 where
    g2: "scanfile langs triple_env (top_file ''a.c'' ''.c'' 2) = Returns g2"
      "sha256 g2 = Some (hashlib_sha256 [0x61, 0x0A])" by auto
  from scanfile_triple [OF r3 _ t2, of 2] obtain g3 where
    g3: "scanfile langs triple_env (top_file ''b.c'' ''.c'' 2) = Returns g3"
      "sha256 g3 = Some (hashlib_sha256 [0x61, 0x0A])" by auto
  from g1 g2 g3 have sc: "snd (scan_all langs triple_env
      [top_file ''x.c'' ''.c'' 3, top_file ''a.c'' ''.c'' 2, top_file ''b.c'' ''.c'' 2])
        = Returns [g1, g2, g3]" by simp
  have no: "\<not> args_output_languages default_args" and inc: "\<not> args_include default_args"
    by (simp_all add: default_args_def)
  from g1 g2 g3 have "remove_duplicates [g1, g2, g3] = [g1]"
    by (intro remove_duplicates_three) simp_all
  with inc have "dedup_step default_args [g1, g2, g3] = [g1]" by (simp add: dedup_step_def)
  with run_scanned [OF listfiles_triple no sc] g1(2) show ?thesis
    by (simp add: counted_def add_totals_filelist del: add_totals.simps)
qed

section \<open>The claims\<close>

text \<open>
  C1. The source does not do what the claim says. In the \<open>while\<close> loop the test
  \<open>epos > 0\<close> breaks out whenever no end token follows the start token, so the branch
  that sets \<open>inblock\<close> is never reached: the flag stays \<open>False\<close> (lemmas
  \<open>bcomm_while_inblock\<close> and \<open>scan_lines_result\<close>). A run on a directory holding the
  three-line C file of the example counts 3 code lines and no comment line, where the
  comments of the source (\<open>ex3\<close>, \<open>ex6\<close>) and the claim expect the block to be entered.
\<close>

theorem C1_open_block_comment_counted_as_code:
  "map counts (filelist (fst (snd (run langs (flat_env [(''a.c'', block_c)]) default_args))))
     = [(3, 0, 0, 3)]"
proof -
  have sz: "fsize (top_file ''a.c'' ''.c'' 44) \<noteq> 0"
    and rs: "resolve langs (extension (top_file ''a.c'' ''.c'' 44)) = Some ''C''"
    and rd: "os_read (flat_env [(''a.c'', block_c)])
               (os_path_join (path (top_file ''a.c'' ''.c'' 44)) (name (top_file ''a.c'' ''.c'' 44)))
             = Some block_c"
    by (simp_all add: top_file_def resolve_c os_defs)
  from scanfile_counts [OF sz rs rd] scan_lines_block
  have "map_res counts (scanfile langs (flat_env [(''a.c'', block_c)]) (top_file ''a.c'' ''.c'' 44))
          = Returns (3, 0, 0, 3)" by simp
  from map_res_Returns [OF this] obtain g where
    g: "scanfile langs (flat_env [(''a.c'', block_c)]) (top_file ''a.c'' ''.c'' 44) = Returns g"
    and c: "counts g = (3, 0, 0, 3)" by blast
  have no: "\<not> args_output_languages default_args" by (simp add: default_args_def)
  from run_single_file [OF listfiles_block no g] c show ?thesis by simp
qed

text \<open>
  C2, as stated, fails: the test for a blank line comes before the test of \<open>endcode\<close>,
  so the blank fourth line of the example is counted as blank, and the totals are
  2 code, 1 comment, 1 blank, not 2 code, 2 comment, 0 blank.
\<close>

theorem C2_blank_after_sentinel_counterexample:
  "map counts (filelist (fst (snd (run langs (flat_env [(''b.pl'', sentinel_pl)]) default_args))))
     \<noteq> [(2, 2, 0, 4)]"
  by (simp add: run_sentinel)

text \<open>
  C2, amended. Once a sentinel line has set \<open>endcode\<close>, every later line that does not
  strip to the empty string is counted as a comment, and every later line that strips to
  the empty string is counted as blank; no later line is counted as code. For the Perl
  rule (sentinel \<open>__END__\<close>, no block comments) the four lines \<open>code();\<close>, \<open>__END__\<close>,
  \<open>more(); \<close> and the empty line give 2 code, 1 comment, 1 blank, 4 lines.
\<close>

theorem C2_after_sentinel_comment_or_blank:
  "(endcode_flag (fst sf) \<and> (\<forall>l\<in>set ls. list_all scalar l)
      \<longrightarrow> (\<exists>sf'. scan_lines ro sf ls = Returns sf' \<and> endcode_flag (fst sf')
             \<and> code (snd sf') = code (snd sf)
             \<and> comments (snd sf') = comments (snd sf) + int (length (filter (\<lambda>l. strip l \<noteq> []) ls))
             \<and> blanks (snd sf') = blanks (snd sf) + int (length (filter (\<lambda>l. strip l = []) ls))))
   \<and> map counts (filelist (fst (snd (run langs (flat_env [(''b.pl'', sentinel_pl)]) default_args))))
       = [(2, 1, 1, 4)]"
  using scan_lines_after_sentinel [of sf ls ro] run_sentinel by blast

theorem C2_after_sentinel_comment_or_blank_witness:
  "\<exists>sf'. scan_lines (map_of langs ''Perl'') (init_state\<lparr>endcode_flag := True\<rparr>, small_file)
            [u ''more(); \<newline>'', u ''\<newline>''] = Returns sf'
         \<and> endcode_flag (fst sf') \<and> code (snd sf') = 0 \<and> comments (snd sf') = 1
         \<and> blanks (snd sf') = 1"
proof -
  have a: "endcode_flag (fst (init_state\<lparr>endcode_flag := True\<rparr>, small_file))" by simp
  have b: "\<forall>l\<in>set [u ''more(); \<newline>'', u ''\<newline>'']. list_all scalar l"
    by (simp add: u_def scalar_def)
  have c: "strip (u ''more(); \<newline>'') \<noteq> []" "strip (u ''\<newline>'') = []"
    by (simp_all add: u_def strip_def strip_by_def is_space_def)
  from C2_after_sentinel_comment_or_blank
    [where sf = "(init_state\<lparr>endcode_flag := True\<rparr>, small_file)"
       and ls = "[u ''more(); \<newline>'', u ''\<newline>'']" and ro = "map_of langs ''Perl''"] a b
  obtain sf' where
    "scan_lines (map_of langs ''Perl'') (init_state\<lparr>endcode_flag := True\<rparr>, small_file)
            [u ''more(); \<newline>'', u ''\<newline>''] = Returns sf'"
    "endcode_flag (fst sf')"
    "code (snd sf') = code (snd (init_state\<lparr>endcode_flag := True\<rparr>, small_file))"
    "comments (snd sf') = comments (snd (init_state\<lparr>endcode_flag := True\<rparr>, small_file))
       + int (length (filter (\<lambda>l. strip l \<noteq> []) [u ''more(); \<newline>'', u ''\<newline>'']))"
    "blanks (snd sf') = blanks (snd (init_state\<lparr>endcode_flag := True\<rparr>, small_file))
       + int (length (filter (\<lambda>l. strip l = []) [u ''more(); \<newline>'', u ''\<newline>'']))"
    by blast
  then show ?thesis
    by (intro exI [of _ sf']) (simp del: scan_lines.simps add: c small_file_def)
qed

text \<open>
  C3, as stated, fails: the file is read as text (\<open>errors="ignore"\<close>, universal
  newlines) and each decoded line is encoded again before it is hashed. The byte \<open>0xFF\<close>
  is never valid in UTF-8 and is dropped, so the three bytes \<open>a\<close>, \<open>0xFF\<close>, newline and
  the two bytes \<open>a\<close>, newline get the same digest, that of the two bytes.
\<close>

theorem C3_digest_of_raw_bytes_counterexample:
  "[0x61, 0xFF, 0x0A] \<noteq> [0x61, 0x0A :: byte]
   \<and> map_res sha256 (scanfile langs (flat_env [(''a.c'', [0x61, 0xFF, 0x0A])]) (top_file ''a.c'' ''.c'' 3))
       = Returns (Some (hashlib_sha256 [0x61, 0x0A]))
   \<and> map_res sha256 (scanfile langs (flat_env [(''a.c'', [0x61, 0x0A])]) (top_file ''a.c'' ''.c'' 2))
       = Returns (Some (hashlib_sha256 [0x61, 0x0A]))"
proof (intro conjI)
  show "[0x61, 0xFF, 0x0A] \<noteq> [0x61, 0x0A :: byte]" by simp
next
  have t: "encode_utf8 (file_text [0x61, 0xFF, 0x0A]) = Some [0x61, 0x0A]"
    by (simp add: file_text_def encode_cp_def)
  show "map_res sha256 (scanfile langs (flat_env [(''a.c'', [0x61, 0xFF, 0x0A])]) (top_file ''a.c'' ''.c'' 3))
       = Returns (Some (hashlib_sha256 [0x61, 0x0A]))"
    by (rule scanfile_digest [OF registry_ok_langs _ _ _ t, where l = "''C''"])
       (simp_all add: top_file_def resolve_c os_defs)
next
  have t: "encode_utf8 (file_text [0x61, 0x0A]) = Some [0x61, 0x0A]"
    by (simp add: file_text_def encode_cp_def)
  show "map_res sha256 (scanfile langs (flat_env [(''a.c'', [0x61, 0x0A])]) (top_file ''a.c'' ''.c'' 2))
       = Returns (Some (hashlib_sha256 [0x61, 0x0A]))"
    by (rule scanfile_digest [OF registry_ok_langs _ _ _ t, where l = "''C''"])
       (simp_all add: top_file_def resolve_c os_defs)
qed

text \<open>
  C3, amended. For every scanned file the content digest is the SHA-256 hash of the UTF-8
  encoding of the file's decoded text (the bytes decoded as UTF-8 with undecodable bytes
  dropped, \<open>\r\n\<close> and \<open>\r\<close> turned into \<open>\n\<close>). The lines are fed in order, whatever the
  rule and whatever each line is classified as. So two files with the same decoded text
  get the same digest, also when their raw bytes differ.
\<close>

theorem C3_digest_of_decoded_text:
  "(registry_ok lgs \<and> fsize f \<noteq> 0 \<and> resolve lgs (extension f) = Some l
      \<and> os_read e (os_path_join (path f) (name f)) = Some raw
    \<longrightarrow> (\<exists>f' bs. scanfile lgs e f = Returns f' \<and> encode_utf8 (file_text raw) = Some bs
             \<and> sha256 f' = Some (hashlib_sha256 bs)))
   \<and> (scan_lines ro sf ls = Returns sf'
    \<longrightarrow> (\<exists>bs. encode_utf8 (concat ls) = Some bs \<and> sha_fed (fst sf') = sha_fed (fst sf) @ bs))"
proof (intro conjI impI)
  assume "registry_ok lgs \<and> fsize f \<noteq> 0 \<and> resolve lgs (extension f) = Some l
      \<and> os_read e (os_path_join (path f) (name f)) = Some raw"
  then have "registry_ok lgs" "fsize f \<noteq> 0" "resolve lgs (extension f) = Some l"
    "os_read e (os_path_join (path f) (name f)) = Some raw" by simp_all
  from scanfile_scanned [OF this]
  show "\<exists>f' bs. scanfile lgs e f = Returns f' \<and> encode_utf8 (file_text raw) = Some bs
             \<and> sha256 f' = Some (hashlib_sha256 bs)" by blast
next
  assume "scan_lines ro sf ls = Returns sf'"
  from scan_lines_result [OF this]
  show "\<exists>bs. encode_utf8 (concat ls) = Some bs \<and> sha_fed (fst sf') = sha_fed (fst sf) @ bs"
    by blast
qed

theorem C3_digest_of_decoded_text_witness:
  "(\<exists>f'. scanfile langs (flat_env [(''a.c'', small_c)]) small_file = Returns f'
         \<and> sha256 f' = Some (hashlib_sha256 small_c))
   \<and> (\<exists>bs. encode_utf8 (concat [u ''int x;\<newline>'']) = Some bs \<and> ascii ''int x;\<newline>'' = [] @ bs)"
proof -
  have sz: "fsize small_file \<noteq> 0"
    and rs: "resolve langs (extension small_file) = Some ''C''"
    by (simp_all add: small_file_def resolve_c)
  have t: "encode_utf8 (file_text small_c) = Some small_c"
    by (simp add: small_c_def ascii_def file_text_def encode_cp_def)
  from C3_digest_of_decoded_text
    [where lgs = langs and f = small_file and l = "''C''" and e = "flat_env [(''a.c'', small_c)]"
       and raw = small_c and ro = "Some (clike [''.c''])" and sf = "(init_state, small_file)"
       and ls = "[u ''int x;\<newline>'']"
       and sf' = "(init_state\<lparr>strblock := Some (u ''/*''), endblock := Some (u ''*/''),
                             sha_fed := ascii ''int x;\<newline>''\<rparr>,
                   small_file\<lparr>lines := 1, code := 1\<rparr>)"]
    registry_ok_langs sz rs read_small scan_lines_small t
  show ?thesis by (simp add: init_state_def)
qed

text \<open>
  C4. Every line of a scanned file adds one to \<open>lines\<close> and to exactly one of \<open>code\<close>,
  \<open>comments\<close> and \<open>blanks\<close>. A file of non-zero size whose extension is in the registry
  is scanned to its end, and its record then has \<open>lines = code + comments + blanks\<close>,
  \<open>lines\<close> being the number of lines read. The assertion of \<open>run\<close> on the grand totals
  never fails, and a run that returns has \<open>tlines = tcode + tcomments + tblanks\<close>.
\<close>

theorem C4_counters_partition_lines:
  "(scan_line ro sf l = Returns sf' \<longrightarrow> one_counter_step (snd sf) (snd sf'))
   \<and> (fresh f \<and> fsize f \<noteq> 0 \<and> resolve langs (extension f) = Some lg
        \<and> os_read e (os_path_join (path f) (name f)) = Some raw
      \<longrightarrow> (\<exists>f'. scanfile langs e f = Returns f' \<and> lang f' = Some lg
                \<and> lines f' = int (length (file_lines raw))
                \<and> lines f' = code f' + comments f' + blanks f'))
   \<and> snd (snd (run lgs e a)) \<noteq> Raises AssertionError
   \<and> (snd (snd (run lgs e a)) = Returns ()
      \<longrightarrow> tlines (fst (snd (run lgs e a)))
            = tcode (fst (snd (run lgs e a))) + tcomments (fst (snd (run lgs e a)))
              + tblanks (fst (snd (run lgs e a)))
          \<and> list_all balanced (filelist (fst (snd (run lgs e a)))))"
proof (intro conjI impI)
  assume "scan_line ro sf l = Returns sf'"
  from scan_line_step [OF this] show "one_counter_step (snd sf) (snd sf')" by simp
next
  assume h: "fresh f \<and> fsize f \<noteq> 0 \<and> resolve langs (extension f) = Some lg
        \<and> os_read e (os_path_join (path f) (name f)) = Some raw"
  then have sz: "fsize f \<noteq> 0" and rs: "resolve langs (extension f) = Some lg"
    and rd: "os_read e (os_path_join (path f) (name f)) = Some raw" and fr: "fresh f"
    by simp_all
  from scanfile_scanned [OF registry_ok_langs sz rs rd] fr
  show "\<exists>f'. scanfile langs e f = Returns f' \<and> lang f' = Some lg
                \<and> lines f' = int (length (file_lines raw))
                \<and> lines f' = code f' + comments f' + blanks f'"
    by (auto simp: fresh_def)
next
  show "snd (snd (run lgs e a)) \<noteq> Raises AssertionError"
    by (rule run_no_assertion_error)
next
  assume r: "snd (snd (run lgs e a)) = Returns ()"
  from run_returns_balanced [OF r]
  show "tlines (fst (snd (run lgs e a)))
            = tcode (fst (snd (run lgs e a))) + tcomments (fst (snd (run lgs e a)))
              + tblanks (fst (snd (run lgs e a)))"
    by (simp add: totals_balanced_def)
  from run_returns_balanced [OF r]
  show "list_all balanced (filelist (fst (snd (run lgs e a))))" by simp
qed

theorem C4_counters_partition_lines_witness:
  "one_counter_step small_file (small_file\<lparr>lines := 1, code := 1\<rparr>)
   \<and> (\<exists>f'. scanfile langs (flat_env [(''a.c'', small_c)]) small_file = Returns f'
          \<and> lang f' = Some ''C'' \<and> lines f' = 3 \<and> lines f' = code f' + comments f' + blanks f')
   \<and> snd (snd (run langs (flat_env [(''a.c'', small_c)]) default_args)) = Returns ()
   \<and> tlines (fst (snd (run langs (flat_env [(''a.c'', small_c)]) default_args)))
       = tcode (fst (snd (run langs (flat_env [(''a.c'', small_c)]) default_args)))
         + tcomments (fst (snd (run langs (flat_env [(''a.c'', small_c)]) default_args)))
         + tblanks (fst (snd (run langs (flat_env [(''a.c'', small_c)]) default_args)))"
proof -
  have fr: "fresh small_file" and sz: "fsize small_file \<noteq> 0"
    and rs: "resolve langs (extension small_file) = Some ''C''"
    by (simp_all add: fresh_def small_file_def resolve_c)
  from C4_counters_partition_lines
    [where ro = "Some (clike [''.c''])" and sf = "(init_state, small_file)"
       and l = "u ''int x;\<newline>''"
       and sf' = "(init_state\<lparr>strblock := Some (u ''/*''), endblock := Some (u ''*/''),
                             sha_fed := ascii ''int x;\<newline>''\<rparr>,
                   small_file\<lparr>lines := 1, code := 1\<rparr>)"
       and f = small_file and lg = "''C''" and e = "flat_env [(''a.c'', small_c)]"
       and raw = small_c and lgs = langs and a = default_args]
    scan_line_small fr sz rs read_small run_small_returns file_lines_small
  show ?thesis by simp
qed

text \<open>
  C5, as stated, fails: \<open>run\<close> calls \<open>listfiles\<close> before \<open>output\<close>, so the directory
  is walked (and every file found is recorded) before the registry is written.
\<close>

theorem C5_walk_before_dump_counterexample:
  "run langs (flat_env [(''a.c'', small_c)]) (default_args\<lparr>args_output_languages := True\<rparr>)
     = ([EvWalk ''.'', EvWriteLanguages ''languages.json'' langs],
        CodeCounter_init\<lparr>filelist := [small_file]\<rparr>,
        Raises (SystemExit ''File languages.json created.''))"
proof -
  note l = listfiles_small_output
  show ?thesis
    by (simp add: run_output_languages l) (simp add: flat_env_def default_args_def)
qed

text \<open>
  C5, amended. Whenever \<open>--output-languages\<close> is given, the run first lists the files
  (walking the directory when the path is one), then writes the registry to
  \<open>languages.json\<close> and ends with \<open>SystemExit\<close>: no file is scanned and no report is
  printed, and the run never returns normally.
\<close>

theorem C5_output_languages_before_scanning:
  "args_output_languages a \<longrightarrow>
     (\<forall>p n. EvScanfile p n \<notin> set (fst (run lgs e a)))
     \<and> (\<forall>s. EvPrint s \<notin> set (fst (run lgs e a)))
     \<and> snd (snd (run lgs e a)) \<noteq> Returns ()
     \<and> (listfiles e a [] = Returns fl \<and> os_writable e ''languages.json'' \<longrightarrow>
          run lgs e a =
            ((if os_isdir e (args_path a) then [EvWalk (args_path a)] else [])
               @ [EvWriteLanguages ''languages.json'' lgs],
             CodeCounter_init\<lparr>filelist := fl\<rparr>,
             Raises (SystemExit ''File languages.json created.'')))"
proof
  assume a: "args_output_languages a"
  show "(\<forall>p n. EvScanfile p n \<notin> set (fst (run lgs e a)))
     \<and> (\<forall>s. EvPrint s \<notin> set (fst (run lgs e a)))
     \<and> snd (snd (run lgs e a)) \<noteq> Returns ()
     \<and> (listfiles e a [] = Returns fl \<and> os_writable e ''languages.json'' \<longrightarrow>
          run lgs e a =
            ((if os_isdir e (args_path a) then [EvWalk (args_path a)] else [])
               @ [EvWriteLanguages ''languages.json'' lgs],
             CodeCounter_init\<lparr>filelist := fl\<rparr>,
             Raises (SystemExit ''File languages.json created.'')))"
    unfolding run_output_languages [OF a]
    by (cases "listfiles e a []") auto
qed

theorem C5_output_languages_before_scanning_witness:
  "(\<forall>p n. EvScanfile p n \<notin> set (fst (run langs (flat_env [(''a.c'', small_c)])
                                       (default_args\<lparr>args_output_languages := True\<rparr>))))
   \<and> (\<forall>s. EvPrint s \<notin> set (fst (run langs (flat_env [(''a.c'', small_c)])
                                    (default_args\<lparr>args_output_languages := True\<rparr>))))
   \<and> run langs (flat_env [(''a.c'', small_c)]) (default_args\<lparr>args_output_languages := True\<rparr>)
       = ([EvWalk ''.''] @ [EvWriteLanguages ''languages.json'' langs],
          CodeCounter_init\<lparr>filelist := [small_file]\<rparr>,
          Raises (SystemExit ''File languages.json created.''))"
proof -
  note l = listfiles_small_output
  have w: "os_writable (flat_env [(''a.c'', small_c)]) ''languages.json''"
    and d: "os_isdir (flat_env [(''a.c'', small_c)])
              (args_path (default_args\<lparr>args_output_languages := True\<rparr>))"
    and p: "args_path (default_args\<lparr>args_output_languages := True\<rparr>) = ''.''"
    and o: "args_output_languages (default_args\<lparr>args_output_languages := True\<rparr>)"
    by (simp_all add: flat_env_def default_args_def)
  from C5_output_languages_before_scanning
    [where a = "default_args\<lparr>args_output_languages := True\<rparr>" and lgs = langs
       and e = "flat_env [(''a.c'', small_c)]" and fl = "[small_file]"] o l w
  have r: "run langs (flat_env [(''a.c'', small_c)]) (default_args\<lparr>args_output_languages := True\<rparr>)
       = ((if os_isdir (flat_env [(''a.c'', small_c)])
                (args_path (default_args\<lparr>args_output_languages := True\<rparr>))
           then [EvWalk (args_path (default_args\<lparr>args_output_languages := True\<rparr>))] else [])
            @ [EvWriteLanguages ''languages.json'' langs],
          CodeCounter_init\<lparr>filelist := [small_file]\<rparr>,
          Raises (SystemExit ''File languages.json created.''))"
    by blast
  show ?thesis unfolding r using d p by simp
qed

text \<open>
  C6. The source does not do what the claim says for the report by directory. The loops
  of \<open>report_file\<close> and \<open>report_lang\<close> skip a record whose \<open>lang\<close> is \<open>None\<close>; the loop
  of \<open>report_dir\<close> tests \<open>shortpath\<close> instead, which is never \<open>None\<close>. A run with
  \<open>--bygroup\<close> on a directory holding only \<open>notes.foo\<close> prints a row for the directory
  \<open>.\<close> with a file count of 1, while the grand total counts no file and the two other
  reports have no row for it.
\<close>

theorem C6_unresolved_file_in_directory_report:
  "fst (run langs notes_env (default_args\<lparr>args_bygroup := True\<rparr>))
     = [EvWalk ''.'', EvScanfile ''.'' ''notes.foo'',
        EvPrint (report_header ''By Directory''),
        EvPrint (ljust 78 ''.''),
        EvPrint (report_detail [] 1 0 0 0 0),
        EvPrint (report_summary (CodeCounter_init\<lparr>filelist := [notes_file]\<rparr>)),
        EvPrint ''Runtime: 0.0 seconds'']
   \<and> lang notes_file = None
   \<and> file_rows [notes_file] = []
   \<and> lang_rows total_init [notes_file] = []"
proof -
  have no: "\<not> args_output_languages (default_args\<lparr>args_bygroup := True\<rparr>)"
    by (simp add: default_args_def)
  have sc: "snd (scan_all langs notes_env [notes_file]) = Returns [notes_file]"
    and ev: "fst (scan_all langs notes_env [notes_file]) = [EvScanfile ''.'' ''notes.foo'']"
    by (simp_all add: scanfile_notes) (simp add: notes_file_def top_file_def)
  have rows: "dir_rows total_init [notes_file] = [ljust 78 ''.'', report_detail [] 1 0 0 0 0]"
    by (simp add: total_init_def total_reset_def total_detail_def truthy_def notes_file_def
          top_file_def)
  have rep: "report (default_args\<lparr>args_bygroup := True\<rparr>) (CodeCounter_init\<lparr>filelist := [notes_file]\<rparr>)
               = [report_header ''By Directory'', ljust 78 ''.'', report_detail [] 1 0 0 0 0,
                  report_summary (CodeCounter_init\<lparr>filelist := [notes_file]\<rparr>)]"
    by (simp add: report_def report_dir_def default_args_def rows del: dir_rows.simps)
  have env: "os_isdir notes_env ''.''"
    "args_path (default_args\<lparr>args_bygroup := True\<rparr>) = ''.''"
    "args_time (default_args\<lparr>args_bygroup := True\<rparr>)"
    "os_runtime notes_env = ''0.0''"
    by (simp_all add: notes_env_def flat_env_def default_args_def)
  have "fst (run langs notes_env (default_args\<lparr>args_bygroup := True\<rparr>))
     = [EvWalk ''.'', EvScanfile ''.'' ''notes.foo'',
        EvPrint (report_header ''By Directory''),
        EvPrint (ljust 78 ''.''),
        EvPrint (report_detail [] 1 0 0 0 0),
        EvPrint (report_summary (CodeCounter_init\<lparr>filelist := [notes_file]\<rparr>)),
        EvPrint ''Runtime: 0.0 seconds'']"
    unfolding run_scanned [OF listfiles_notes no sc] counted_notes rep ev
    by (simp add: env)
  moreover have "lang notes_file = None" "file_rows [notes_file] = []"
    "lang_rows total_init [notes_file] = []"
    by (simp_all add: notes_file_def top_file_def file_rows_def total_init_def truthy_def)
  ultimately show ?thesis by simp
qed

text \<open>
  C7, as stated, fails. \<open>a.c\<close> and \<open>b.c\<close> have the same bytes, but \<open>x.c\<close>, listed before
  them, has the same digest (its byte \<open>0xFF\<close> is dropped by the decoder), so the run
  without \<open>--include\<close> keeps \<open>x.c\<close> alone: neither record of the pair remains.
\<close>

theorem C7_pair_leaves_no_record_counterexample:
  "os_read triple_env (os_path_join ''.'' ''a.c'') = Some [0x61, 0x0A]
   \<and> os_read triple_env (os_path_join ''.'' ''b.c'') = Some [0x61, 0x0A]
   \<and> map name (filelist (fst (snd (run langs triple_env default_args)))) = [''x.c'']"
  by (simp add: run_triple) (simp add: triple_env_def os_defs)

text \<open>
  C7, amended. Two files that are scanned (non-zero size, extension in the registry) and
  have the same bytes get the same digest. Without \<open>--include\<close>, of all the records of
  the scanned list that have one digest exactly one remains, the first of them in list
  order: for the record at any position \<open>i\<close> it is the record at the least position
  \<open>m \<le> i\<close> with that digest, so the first file of a pair remains when no file before it
  has the same digest, and an earlier file with the same digest takes the place of both.
  With \<open>--include\<close> the list is left as it is, so both records remain. The list so
  obtained is the \<open>filelist\<close> the totals and the reports of the run are computed from.
\<close>

theorem C7_first_record_of_each_digest_kept:
  "(registry_ok lgs \<and> fsize f1 \<noteq> 0 \<and> fsize f2 \<noteq> 0
      \<and> resolve lgs (extension f1) = Some l1 \<and> resolve lgs (extension f2) = Some l2
      \<and> os_read e (os_path_join (path f1) (name f1)) = Some raw
      \<and> os_read e (os_path_join (path f2) (name f2)) = Some raw
    \<longrightarrow> (\<exists>g1 g2 d. scanfile lgs e f1 = Returns g1 \<and> scanfile lgs e f2 = Returns g2
             \<and> sha256 g1 = Some d \<and> sha256 g2 = Some d))
   \<and> (\<not> args_include a
    \<longrightarrow> filter (\<lambda>f. sha256 f = d) (dedup_step a fl) = take 1 (filter (\<lambda>f. sha256 f = d) fl))
   \<and> (\<not> args_include a \<and> i < length fl
    \<longrightarrow> (\<exists>m\<le>i. sha256 (fl ! m) = sha256 (fl ! i)
             \<and> (\<forall>k<m. sha256 (fl ! k) \<noteq> sha256 (fl ! i))
             \<and> filter (\<lambda>f. sha256 f = sha256 (fl ! i)) (dedup_step a fl) = [fl ! m]))
   \<and> (args_include a \<longrightarrow> dedup_step a fl = fl)
   \<and> (listfiles e a [] = Returns fl0 \<and> \<not> args_output_languages a
      \<and> snd (scan_all lgs e fl0) = Returns fl
    \<longrightarrow> snd (snd (run lgs e a)) = Returns ()
        \<and> fst (snd (run lgs e a))
            = add_totals (CodeCounter_init\<lparr>filelist := dedup_step a fl\<rparr>) (dedup_step a fl))"
proof (intro conjI impI)
  assume h: "registry_ok lgs \<and> fsize f1 \<noteq> 0 \<and> fsize f2 \<noteq> 0
      \<and> resolve lgs (extension f1) = Some l1 \<and> resolve lgs (extension f2) = Some l2
      \<and> os_read e (os_path_join (path f1) (name f1)) = Some raw
      \<and> os_read e (os_path_join (path f2) (name f2)) = Some raw"
  then have ok: "registry_ok lgs"
    and 1: "fsize f1 \<noteq> 0" "resolve lgs (extension f1) = Some l1"
      "os_read e (os_path_join (path f1) (name f1)) = Some raw"
    and 2: "fsize f2 \<noteq> 0" "resolve lgs (extension f2) = Some l2"
      "os_read e (os_path_join (path f2) (name f2)) = Some raw"
    by simp_all
  from scanfile_scanned [OF ok 1] obtain g1 b1 where
    g1: "scanfile lgs e f1 = Returns g1" "encode_utf8 (file_text raw) = Some b1"
      "sha256 g1 = Some (hashlib_sha256 b1)" by blast
  from scanfile_scanned [OF ok 2] obtain g2 b2 where
    g2: "scanfile lgs e f2 = Returns g2" "encode_utf8 (file_text raw) = Some b2"
      "sha256 g2 = Some (hashlib_sha256 b2)" by blast
  from g1 g2 have "sha256 g2 = Some (hashlib_sha256 b1)" by simp
  with g1 g2 show "\<exists>g1 g2 d. scanfile lgs e f1 = Returns g1 \<and> scanfile lgs e f2 = Returns g2
             \<and> sha256 g1 = Some d \<and> sha256 g2 = Some d" by blast
next
  assume "\<not> args_include a"
  then show "filter (\<lambda>f. sha256 f = d) (dedup_step a fl) = take 1 (filter (\<lambda>f. sha256 f = d) fl)"
    by (simp add: dedup_step_def remove_duplicates_filter)
next
  assume h: "\<not> args_include a \<and> i < length fl"
  define m where "m = (LEAST k. sha256 (fl ! k) = sha256 (fl ! i))"
  have mi: "m \<le> i" unfolding m_def by (rule Least_le) simp
  have pm: "sha256 (fl ! m) = sha256 (fl ! i)"
    unfolding m_def by (rule LeastI [of "\<lambda>k. sha256 (fl ! k) = sha256 (fl ! i)" i]) simp
  have lt: "\<forall>k<m. sha256 (fl ! k) \<noteq> sha256 (fl ! i)"
    unfolding m_def using not_less_Least by blast
  from mi h have ml: "m < length fl" by simp
  from lt pm have "\<forall>k<m. sha256 (fl ! k) \<noteq> sha256 (fl ! m)" by simp
  from remove_duplicates_keeps_first [OF ml this] pm h
  have "filter (\<lambda>f. sha256 f = sha256 (fl ! i)) (dedup_step a fl) = [fl ! m]"
    by (simp add: dedup_step_def)
  with mi pm lt
  show "\<exists>m\<le>i. sha256 (fl ! m) = sha256 (fl ! i)
             \<and> (\<forall>k<m. sha256 (fl ! k) \<noteq> sha256 (fl ! i))
             \<and> filter (\<lambda>f. sha256 f = sha256 (fl ! i)) (dedup_step a fl) = [fl ! m]"
    by blast
next
  assume "args_include a"
  then show "dedup_step a fl = fl" by (simp add: dedup_step_def)
next
  assume h: "listfiles e a [] = Returns fl0 \<and> \<not> args_output_languages a
      \<and> snd (scan_all lgs e fl0) = Returns fl"
  then have "listfiles e a [] = Returns fl0" "\<not> args_output_languages a"
    "snd (scan_all lgs e fl0) = Returns fl" by simp_all
  from run_scanned [OF this]
  show "snd (snd (run lgs e a)) = Returns ()"
    and "fst (snd (run lgs e a))
            = add_totals (CodeCounter_init\<lparr>filelist := dedup_step a fl\<rparr>) (dedup_step a fl)"
    by (simp_all add: counted_def)
qed

theorem C7_first_record_of_each_digest_kept_witness:
  "scanfile langs twin_env (top_file ''a.c'' ''.c'' 13) = Returns (scanned_c ''a.c'')
   \<and> scanfile langs twin_env (top_file ''b.c'' ''.c'' 13) = Returns (scanned_c ''b.c'')
   \<and> sha256 (scanned_c ''b.c'') = sha256 (scanned_c ''a.c'')
   \<and> filter (\<lambda>f. sha256 f = sha256 (scanned_c ''b.c''))
        (dedup_step default_args [scanned_c ''a.c'', scanned_c ''b.c'']) = [scanned_c ''a.c'']
   \<and> dedup_step (default_args\<lparr>args_include := True\<rparr>) [scanned_c ''a.c'', scanned_c ''b.c'']
       = [scanned_c ''a.c'', scanned_c ''b.c'']
   \<and> filelist (fst (snd (run langs twin_env default_args))) = [scanned_c ''a.c'']
   \<and> tfiles (fst (snd (run langs twin_env default_args))) = 1
   \<and> filelist (fst (snd (run langs twin_env (default_args\<lparr>args_include := True\<rparr>))))
       = [scanned_c ''a.c'', scanned_c ''b.c'']
   \<and> tfiles (fst (snd (run langs twin_env (default_args\<lparr>args_include := True\<rparr>)))) = 2"
proof -
  define fl where "fl = [scanned_c ''a.c'', scanned_c ''b.c'']"
  have eq: "sha256 (fl ! 0) = sha256 (fl ! 1)" and len: "(1::nat) < length fl"
    by (simp_all add: fl_def scanned_c_def)
  have inc: "\<not> args_include default_args" "args_include (default_args\<lparr>args_include := True\<rparr>)"
    and out: "\<not> args_output_languages default_args"
      "\<not> args_output_languages (default_args\<lparr>args_include := True\<rparr>)"
    and pth: "args_path default_args = ''.''"
      "args_path (default_args\<lparr>args_include := True\<rparr>) = ''.''"
    by (simp_all add: default_args_def)
  note d = C7_first_record_of_each_digest_kept
    [where i = 1 and fl = fl and a = default_args and e = twin_env and lgs = langs
       and ?fl0.0 = "[top_file ''a.c'' ''.c'' 13, top_file ''b.c'' ''.c'' 13]"]
  note n = C7_first_record_of_each_digest_kept
    [where i = 1 and fl = fl and a = "default_args\<lparr>args_include := True\<rparr>"
       and e = twin_env and lgs = langs
       and ?fl0.0 = "[top_file ''a.c'' ''.c'' 13, top_file ''b.c'' ''.c'' 13]"]
  from d inc(1) len obtain m where m: "m \<le> 1" "\<forall>k<m. sha256 (fl ! k) \<noteq> sha256 (fl ! 1)"
    "filter (\<lambda>f. sha256 f = sha256 (fl ! 1)) (dedup_step default_args fl) = [fl ! m]"
    by blast
  have "m = 0"
  proof (rule ccontr)
    assume "m \<noteq> 0"
    with m(1) have "0 < m" by simp
    with m(2) eq show False by blast
  qed
  with m(3) have k1: "filter (\<lambda>f. sha256 f = sha256 (fl ! 1)) (dedup_step default_args fl) = [fl ! 0]"
    by simp
  from n inc(2) have k2: "dedup_step (default_args\<lparr>args_include := True\<rparr>) fl = fl"
    by blast
  have sc: "snd (scan_all langs twin_env [top_file ''a.c'' ''.c'' 13, top_file ''b.c'' ''.c'' 13])
              = Returns fl"
    by (simp only: scan_all_twin fl_def)
  from d listfiles_twin [OF pth(1)] out(1) sc
  have r1: "fst (snd (run langs twin_env default_args))
              = add_totals (CodeCounter_init\<lparr>filelist := dedup_step default_args fl\<rparr>)
                  (dedup_step default_args fl)"
    by blast
  from n listfiles_twin [OF pth(2)] out(2) sc
  have r2: "fst (snd (run langs twin_env (default_args\<lparr>args_include := True\<rparr>)))
              = add_totals (CodeCounter_init\<lparr>filelist := dedup_step (default_args\<lparr>args_include := True\<rparr>) fl\<rparr>)
                  (dedup_step (default_args\<lparr>args_include := True\<rparr>) fl)"
    by blast
  have dd: "dedup_step default_args fl = [scanned_c ''a.c'']"
    by (simp add: dedup_step_def default_args_def remove_duplicates_def fl_def scanned_c_def)
  have t1: "tfiles (add_totals (CodeCounter_init\<lparr>filelist := [scanned_c ''a.c'']\<rparr>) [scanned_c ''a.c'']) = 1"
    and t2: "tfiles (add_totals (CodeCounter_init\<lparr>filelist := fl\<rparr>) fl) = 2"
    by (simp_all add: CodeCounter_init_def scanned_c_def fl_def)
  from k1 k2 r1 r2 dd t1 t2 show ?thesis
    by (simp add: add_totals_filelist scanfile_twin del: add_totals.simps)
       (simp add: fl_def scanned_c_def)
qed

text \<open>
  C8. The constructor lowers the extension of the file name, so two names that differ
  only in letter case get the same extension and the loop of \<open>scanfile\<close> finds the same
  language for both, or none for both. A file whose extension is in no rule is returned
  by \<open>scanfile\<close> as it was: nothing is raised, and the file is not opened.
\<close>

theorem C8_resolution_ignores_case_and_skips_unknown:
  "(differ_in_case n1 n2 \<and> Filename_init e ap p n1 = Returns f1
      \<and> Filename_init e ap p n2 = Returns f2
    \<longrightarrow> extension f1 = extension f2 \<and> resolve lgs (extension f1) = resolve lgs (extension f2))
   \<and> (lang f = None \<and> resolve lgs (extension f) = None \<longrightarrow> scanfile lgs e f = Returns f)"
proof (intro conjI impI)
  assume h: "differ_in_case n1 n2 \<and> Filename_init e ap p n1 = Returns f1
      \<and> Filename_init e ap p n2 = Returns f2"
  then have d: "differ_in_case n1 n2" and 1: "Filename_init e ap p n1 = Returns f1"
    and 2: "Filename_init e ap p n2 = Returns f2" by simp_all
  from Filename_init_extension [OF 1] Filename_init_extension [OF 2]
    extension_case_insensitive [OF d]
  show e: "extension f1 = extension f2" by simp
  then show "resolve lgs (extension f1) = resolve lgs (extension f2)" by simp
next
  assume "lang f = None \<and> resolve lgs (extension f) = None"
  then show "scanfile lgs e f = Returns f" by (intro scanfile_skipped) simp
qed

theorem C8_resolution_ignores_case_and_skips_unknown_witness:
  "extension (top_file ''Main.PY'' ''.py'' 2) = extension (top_file ''main.py'' ''.py'' 2)
   \<and> resolve langs (extension (top_file ''Main.PY'' ''.py'' 2)) = Some ''Python''
   \<and> resolve langs (extension (top_file ''main.py'' ''.py'' 2)) = Some ''Python''
   \<and> scanfile langs notes_env notes_file = Returns notes_file"
proof -
  have a: "lang notes_file = None \<and> resolve langs (extension notes_file) = None"
    by (simp add: notes_file_def top_file_def resolve_foo)
  from C8_resolution_ignores_case_and_skips_unknown
    [where ?n1.0 = "''Main.PY''" and ?n2.0 = "''main.py''" and e = py_env and ap = "''.''"
       and p = "''.''" and ?f1.0 = "top_file ''Main.PY'' ''.py'' 2"
       and ?f2.0 = "top_file ''main.py'' ''.py'' 2" and lgs = langs]
    differ_Main_main Filename_init_PY Filename_init_py
  have b: "extension (top_file ''Main.PY'' ''.py'' 2) = extension (top_file ''main.py'' ''.py'' 2)
    \<and> resolve langs (extension (top_file ''Main.PY'' ''.py'' 2))
        = resolve langs (extension (top_file ''main.py'' ''.py'' 2))"
    by blast
  from C8_resolution_ignores_case_and_skips_unknown
    [where f = notes_file and lgs = langs and e = notes_env] a
  have c: "scanfile langs notes_env notes_file = Returns notes_file" by blast
  have "resolve langs (extension (top_file ''main.py'' ''.py'' 2)) = Some ''Python''"
    by (simp add: top_file_def resolve_py)
  with b c show ?thesis by simp
qed

text \<open>
  C9. The loop of \<open>scanfile\<close> goes through the registry in the order of the source and
  stops at the first language whose extensions hold the file's. \<open>.mac\<close> is listed by
  \<open>IBM Macro\<close> and by \<open>VB\<close>, in this order, so a file whose lowered extension is \<open>.mac\<close>
  is given the language \<open>IBM Macro\<close> whenever it is scanned.
\<close>

theorem C9_mac_is_IBM_Macro:
  "resolve langs ''.mac'' = Some ''IBM Macro''
   \<and> map fst (filter (\<lambda>y. ''.mac'' \<in> set (ext (snd y))) langs) = [''IBM Macro'', ''VB'']
   \<and> resolve lgs x
       = (case filter (\<lambda>y. x \<in> set (ext (snd y))) lgs of [] \<Rightarrow> None | y # ys \<Rightarrow> Some (fst y))
   \<and> (Filename_init e ap p n = Returns f \<and> lower (snd (splitext n)) = ''.mac'' \<and> fsize f \<noteq> 0
        \<and> scanfile langs e f = Returns f'
      \<longrightarrow> lang f' = Some ''IBM Macro'')"
proof (intro conjI impI)
  show "resolve langs ''.mac'' = Some ''IBM Macro''" by (rule resolve_mac)
  show "map fst (filter (\<lambda>y. ''.mac'' \<in> set (ext (snd y))) langs) = [''IBM Macro'', ''VB'']"
    by (simp add: langs_def clike_def)
  show "resolve lgs x
       = (case filter (\<lambda>y. x \<in> set (ext (snd y))) lgs of [] \<Rightarrow> None | y # ys \<Rightarrow> Some (fst y))"
    by (rule resolve_first)
next
  assume h: "Filename_init e ap p n = Returns f \<and> lower (snd (splitext n)) = ''.mac''
      \<and> fsize f \<noteq> 0 \<and> scanfile langs e f = Returns f'"
  then have "extension f = ''.mac''"
    by (auto simp: Filename_init_def Let_def split: option.splits)
  with h have rs: "resolve langs (extension f) = Some ''IBM Macro''" by (simp add: resolve_mac)
  from h have r: "scanfile langs e f = Returns f'" and sz: "fsize f \<noteq> 0" by simp_all
  show "lang f' = Some ''IBM Macro''"
  proof (cases "os_read e (os_path_join (path f) (name f))")
    case None
    with r sz rs show ?thesis by (simp add: scanfile_def)
  next
    case (Some raw)
    from scanfile_scanned [OF registry_ok_langs sz rs Some] r show ?thesis by auto
  qed
qed

theorem C9_mac_is_IBM_Macro_witness:
  "\<exists>f'. scanfile langs mac_env (top_file ''X.MAC'' ''.mac'' 2) = Returns f'
         \<and> lang f' = Some ''IBM Macro''"
proof -
  have sz: "fsize (top_file ''X.MAC'' ''.mac'' 2) \<noteq> 0"
    and rs: "resolve langs (extension (top_file ''X.MAC'' ''.mac'' 2)) = Some ''IBM Macro''"
    and rd: "os_read mac_env (os_path_join (path (top_file ''X.MAC'' ''.mac'' 2))
               (name (top_file ''X.MAC'' ''.mac'' 2))) = Some (ascii ''a\<newline>'')"
    by (simp_all add: top_file_def resolve_mac os_defs mac_env_def)
  from scanfile_scanned [OF registry_ok_langs sz rs rd] obtain f' where
    f': "scanfile langs mac_env (top_file ''X.MAC'' ''.mac'' 2) = Returns f'" by blast
  note lw = extension_MAC
  from C9_mac_is_IBM_Macro
    [where e = mac_env and ap = "''.''" and p = "''.''" and n = "''X.MAC''"
       and f = "top_file ''X.MAC'' ''.mac'' 2" and f' = f']
    Filename_init_mac lw sz f'
  have "lang f' = Some ''IBM Macro''" by blast
  with f' show ?thesis by blast
qed

text \<open>
  C10. A file that is skipped (size zero, or an extension in no rule) is returned by
  \<open>scanfile\<close> as the constructor made it, with the digest \<open>None\<close>. Of the records
  with the digest \<open>None\<close> at most one is left by \<open>remove_duplicates\<close>, so at most one
  skipped file is in the file list of a run without \<open>--include\<close>.
\<close>

theorem C10_skipped_files_share_digest_None:
  "(Filename_init e ap p n = Returns f \<and> (fsize f = 0 \<or> resolve lgs (extension f) = None)
      \<longrightarrow> scanfile lgs e f = Returns f \<and> sha256 f = None)
   \<and> length (filter (\<lambda>f. sha256 f = None) (remove_duplicates fl)) \<le> 1
   \<and> (\<not> args_include a \<longrightarrow> length (filter (\<lambda>f. sha256 f = None) (dedup_step a fl)) \<le> 1)"
proof (intro conjI impI)
  assume h: "Filename_init e ap p n = Returns f \<and> (fsize f = 0 \<or> resolve lgs (extension f) = None)"
  then have i: "Filename_init e ap p n = Returns f" by simp
  from Filename_init_sha256 [OF i] show "sha256 f = None" by simp
  from Filename_init_sha256 [OF i] h show "scanfile lgs e f = Returns f"
    by (intro scanfile_skipped) auto
next
  show "length (filter (\<lambda>f. sha256 f = None) (remove_duplicates fl)) \<le> 1"
    by (rule remove_duplicates_at_most_one)
next
  assume "\<not> args_include a"
  with remove_duplicates_at_most_one [of None fl]
  show "length (filter (\<lambda>f. sha256 f = None) (dedup_step a fl)) \<le> 1"
    by (simp add: dedup_step_def)
qed

theorem C10_skipped_files_share_digest_None_witness:
  "scanfile langs notes_env notes_file = Returns notes_file \<and> sha256 notes_file = None
   \<and> length (filter (\<lambda>f. sha256 f = None)
        (dedup_step default_args [notes_file, top_file ''empty.c'' ''.c'' 0])) \<le> 1"
proof -
  have a: "fsize notes_file = 0 \<or> resolve langs (extension notes_file) = None"
    by (simp add: notes_file_def top_file_def resolve_foo)
  have b: "\<not> args_include default_args" by (simp add: default_args_def)
  from C10_skipped_files_share_digest_None
    [where e = notes_env and ap = "''.''" and p = "''.''" and n = "''notes.foo''"
       and f = notes_file and lgs = langs and a = default_args
       and fl = "[notes_file, top_file ''empty.c'' ''.c'' 0]"]
    Filename_init_notes a b
  show ?thesis by blast
qed

end
